theory Spec2Isabelle
  imports Main "HOL-Library.Sublist"
begin

section \<open>Outcomes of a call\<close>

text \<open>
  A member function of the toolkit either returns, or leaves by a C++ exception, or runs
  into undefined behaviour (dereferencing a null smart pointer, \<^verbatim>\<open>front()\<close> of an empty
  container), or finds the predicate of its wait false and parks its thread on the
  condition variable (\<open>Blocks\<close>), or ends the program through \<^verbatim>\<open>std::terminate()\<close>
  (\<open>Terminates\<close>). A call is taken as one step (every call runs under the mutex of the
  object, which is not modelled). \<open>Blocks\<close> says that the call does not return from this
  evaluation of its predicate; whether and when the thread is woken is not part of the
  outcome. A member function of a queue throws only before its first write to the queue,
  so after \<open>Throws\<close> the queue is as it was before the call.
\<close>

datatype exn = bad_alloc | system_error | future_error

datatype 'a outcome = Returns 'a | Throws exn | Undefined | Blocks | Terminates

text \<open>
  \<^verbatim>\<open>std::shared_ptr<T>\<close>: null, or a pointer to a heap cell holding a \<open>T\<close>. No claim
  depends on two shared pointers being the same cell, so the cell is its content.
\<close>

type_synonym 'a shared_ptr = "'a option"

text \<open>
  The allocator is part of the environment of every call: \<open>mem\<close> is the number of
  allocations it can still satisfy. \<^verbatim>\<open>std::make_shared<T>(std::move(value))\<close> is one
  allocation; it throws \<^verbatim>\<open>std::bad_alloc\<close> when none is left.
\<close>

definition make_shared :: "nat \<Rightarrow> 'a \<Rightarrow> 'a shared_ptr outcome" where
  "make_shared mem v = (if mem = 0 then Throws bad_alloc else Returns (Some v))"

text \<open>Sequencing: the first call that does not return ends the member function.\<close>

primrec and_then :: "'a outcome \<Rightarrow> ('a \<Rightarrow> 'b outcome) \<Rightarrow> 'b outcome" where
  "and_then (Returns x) f = f x"
| "and_then (Throws e) f = Throws e"
| "and_then Undefined f = Undefined"
| "and_then Blocks f = Blocks"
| "and_then Terminates f = Terminates"

lemma and_then_cong [fundef_cong]:
  "m = m' \<Longrightarrow> (\<And>x. m' = Returns x \<Longrightarrow> f x = f' x) \<Longrightarrow> and_then m f = and_then m' f'"
  by (cases m') simp_all

text \<open>\<^verbatim>\<open>*p\<close> for a shared pointer \<open>p\<close>: undefined behaviour when \<open>p\<close> is null.\<close>

definition deref :: "'a shared_ptr \<Rightarrow> 'a outcome" where
  "deref p = (case p of None \<Rightarrow> Undefined | Some v \<Rightarrow> Returns v)"

text \<open>
  \<^verbatim>\<open>std::queue\<close> and \<^verbatim>\<open>std::deque\<close> are lists, the front first. Reading or removing
  an end of an empty container is undefined behaviour. An insertion allocates when the
  container has no room left for one more element. How many allocations it asks for
  depends on the spare room of the container, which a list does not show, and on the
  library: the number \<open>need\<close> comes with the call (\<open>0\<close> while there is room). An
  insertion that cannot allocate throws \<^verbatim>\<open>std::bad_alloc\<close> and leaves the container as
  it was.
\<close>

definition front :: "'a list \<Rightarrow> 'a outcome" where
  "front xs = (case xs of [] \<Rightarrow> Undefined | x # _ \<Rightarrow> Returns x)"

definition deque_pop_front :: "'a list \<Rightarrow> 'a list outcome" where
  "deque_pop_front xs = (case xs of [] \<Rightarrow> Undefined | _ # r \<Rightarrow> Returns r)"

definition deque_back :: "'a list \<Rightarrow> 'a outcome" where
  "deque_back xs = (if xs = [] then Undefined else Returns (last xs))"

definition deque_pop_back :: "'a list \<Rightarrow> 'a list outcome" where
  "deque_pop_back xs = (if xs = [] then Undefined else Returns (butlast xs))"

definition deque_push_front :: "nat \<Rightarrow> nat \<Rightarrow> 'a \<Rightarrow> 'a list \<Rightarrow> 'a list outcome" where
  "deque_push_front mem need x xs = (if mem < need then Throws bad_alloc else Returns (x # xs))"

text \<open>\<^verbatim>\<open>std::queue::push\<close> appends at the back, \<^verbatim>\<open>std::queue::pop\<close> removes the front.\<close>

definition push :: "nat \<Rightarrow> nat \<Rightarrow> 'a \<Rightarrow> 'a list \<Rightarrow> 'a list outcome" where
  "push mem need x xs = (if mem < need then Throws bad_alloc else Returns (xs @ [x]))"

definition pop :: "'a list \<Rightarrow> 'a list outcome" where
  "pop xs = deque_pop_front xs"

section \<open>WorkStealingQueue\<close>

text \<open>
  \<^verbatim>\<open>std::deque<FunctionWrapper> q_\<close> is a list whose head is \<^verbatim>\<open>q_.front()\<close> and whose
  last element is \<^verbatim>\<open>q_.back()\<close>. The class is not a template (its element type is
  \<^verbatim>\<open>FunctionWrapper\<close>); the model leaves the element type open.

  A member function with an out-parameter \<^verbatim>\<open>T* value\<close> takes the content of
  \<^verbatim>\<open>*value\<close> before the call and returns its content after the call, next to the
  \<^verbatim>\<open>bool\<close> the C++ function returns. Record fields carry the names of the data members
  without the trailing underscore.
\<close>

record 't WorkStealingQueue =
  q :: "'t list"

definition WorkStealingQueue_new :: "'t WorkStealingQueue" where
  "WorkStealingQueue_new = \<lparr>q = []\<rparr>"

definition WorkStealingQueue_Push ::
    "nat \<Rightarrow> nat \<Rightarrow> 't \<Rightarrow> 't WorkStealingQueue \<Rightarrow> 't WorkStealingQueue outcome" where
  "WorkStealingQueue_Push mem need data w =
     and_then (deque_push_front mem need data (q w)) (\<lambda>r.
     Returns (w\<lparr>q := r\<rparr>))"

definition WorkStealingQueue_TryPop ::
    "'t \<Rightarrow> 't WorkStealingQueue \<Rightarrow> (bool \<times> 't \<times> 't WorkStealingQueue) outcome" where
  "WorkStealingQueue_TryPop val w =
     (if q w = [] then Returns (False, val, w)
      else and_then (front (q w)) (\<lambda>x.
           and_then (deque_pop_front (q w)) (\<lambda>r.
           Returns (True, x, w\<lparr>q := r\<rparr>))))"

definition WorkStealingQueue_TrySteal ::
    "'t \<Rightarrow> 't WorkStealingQueue \<Rightarrow> (bool \<times> 't \<times> 't WorkStealingQueue) outcome" where
  "WorkStealingQueue_TrySteal val w =
     (if q w = [] then Returns (False, val, w)
      else and_then (deque_back (q w)) (\<lambda>x.
           and_then (deque_pop_back (q w)) (\<lambda>r.
           Returns (True, x, w\<lparr>q := r\<rparr>))))"

definition WorkStealingQueue_Empty :: "'t WorkStealingQueue \<Rightarrow> bool" where
  "WorkStealingQueue_Empty w = (q w = [])"

section \<open>ThreadSafeQueue and ThreadSafeQueue1 (simple_thread_safe_queue.h)\<close>

text \<open>
  \<^verbatim>\<open>ThreadSafeQueue<T>\<close> holds \<^verbatim>\<open>std::queue<std::shared_ptr<T>> queue_\<close>;
  \<^verbatim>\<open>ThreadSafeQueue1<T>\<close>, the earlier design kept in the same header, holds
  \<^verbatim>\<open>std::queue<T> queue_\<close> (field \<open>queue1\<close> here) and allocates the shared pointer in
  the value-returning pops. \<^verbatim>\<open>cv_.wait(ul, pred)\<close> returns at once when \<open>pred\<close> holds and
  parks the caller otherwise; \<^verbatim>\<open>cv_.notify_one()\<close> changes no data.
  An overload taking \<^verbatim>\<open>T* value\<close> has the suffix \<open>_out\<close>. The constant with the suffix
  \<open>_new\<close> is the queue as its constructor leaves it.
\<close>

record 'a ThreadSafeQueue =
  queue :: "'a shared_ptr list"

record 'a ThreadSafeQueue1 =
  queue1 :: "'a list"

definition ThreadSafeQueue_new :: "'a ThreadSafeQueue" where
  "ThreadSafeQueue_new = \<lparr>queue = []\<rparr>"

definition ThreadSafeQueue_Empty :: "'a ThreadSafeQueue \<Rightarrow> bool" where
  "ThreadSafeQueue_Empty s = (queue s = [])"

definition ThreadSafeQueue_Push ::
    "nat \<Rightarrow> nat \<Rightarrow> 'a \<Rightarrow> 'a ThreadSafeQueue \<Rightarrow> 'a ThreadSafeQueue outcome" where
  "ThreadSafeQueue_Push mem need v s =
     and_then (make_shared mem v) (\<lambda>data.
     and_then (push (mem - 1) need data (queue s)) (\<lambda>r.
     Returns (s\<lparr>queue := r\<rparr>)))"

definition ThreadSafeQueue_WaitAndPop_out ::
    "'a \<Rightarrow> 'a ThreadSafeQueue \<Rightarrow> ('a \<times> 'a ThreadSafeQueue) outcome" where
  "ThreadSafeQueue_WaitAndPop_out val s =
     (if queue s = [] then Blocks
      else and_then (front (queue s)) (\<lambda>p.
           and_then (deref p) (\<lambda>v.
           and_then (pop (queue s)) (\<lambda>r.
           Returns (v, s\<lparr>queue := r\<rparr>)))))"

definition ThreadSafeQueue_WaitAndPop ::
    "'a ThreadSafeQueue \<Rightarrow> ('a shared_ptr \<times> 'a ThreadSafeQueue) outcome" where
  "ThreadSafeQueue_WaitAndPop s =
     (if queue s = [] then Blocks
      else and_then (front (queue s)) (\<lambda>res.
           and_then (pop (queue s)) (\<lambda>r.
           Returns (res, s\<lparr>queue := r\<rparr>))))"

definition ThreadSafeQueue_TryPop_out ::
    "'a \<Rightarrow> 'a ThreadSafeQueue \<Rightarrow> (bool \<times> 'a \<times> 'a ThreadSafeQueue) outcome" where
  "ThreadSafeQueue_TryPop_out val s =
     (if queue s = [] then Returns (False, val, s)
      else and_then (front (queue s)) (\<lambda>p.
           and_then (deref p) (\<lambda>v.
           and_then (pop (queue s)) (\<lambda>r.
           Returns (True, v, s\<lparr>queue := r\<rparr>)))))"

definition ThreadSafeQueue_TryPop ::
    "'a ThreadSafeQueue \<Rightarrow> ('a shared_ptr \<times> 'a ThreadSafeQueue) outcome" where
  "ThreadSafeQueue_TryPop s =
     (if queue s = [] then Returns (None, s)
      else and_then (front (queue s)) (\<lambda>res.
           and_then (pop (queue s)) (\<lambda>r.
           Returns (res, s\<lparr>queue := r\<rparr>))))"

definition ThreadSafeQueue1_new :: "'a ThreadSafeQueue1" where
  "ThreadSafeQueue1_new = \<lparr>queue1 = []\<rparr>"

definition ThreadSafeQueue1_Empty :: "'a ThreadSafeQueue1 \<Rightarrow> bool" where
  "ThreadSafeQueue1_Empty s = (queue1 s = [])"

definition ThreadSafeQueue1_Push ::
    "nat \<Rightarrow> nat \<Rightarrow> 'a \<Rightarrow> 'a ThreadSafeQueue1 \<Rightarrow> 'a ThreadSafeQueue1 outcome" where
  "ThreadSafeQueue1_Push mem need v s =
     and_then (push mem need v (queue1 s)) (\<lambda>r.
     Returns (s\<lparr>queue1 := r\<rparr>))"

definition ThreadSafeQueue1_WaitAndPop_out ::
    "'a \<Rightarrow> 'a ThreadSafeQueue1 \<Rightarrow> ('a \<times> 'a ThreadSafeQueue1) outcome" where
  "ThreadSafeQueue1_WaitAndPop_out val s =
     (if queue1 s = [] then Blocks
      else and_then (front (queue1 s)) (\<lambda>v.
           and_then (pop (queue1 s)) (\<lambda>r.
           Returns (v, s\<lparr>queue1 := r\<rparr>))))"

definition ThreadSafeQueue1_WaitAndPop ::
    "nat \<Rightarrow> 'a ThreadSafeQueue1 \<Rightarrow> ('a shared_ptr \<times> 'a ThreadSafeQueue1) outcome" where
  "ThreadSafeQueue1_WaitAndPop mem s =
     (if queue1 s = [] then Blocks
      else and_then (front (queue1 s)) (\<lambda>x.
           and_then (make_shared mem x) (\<lambda>v.
           and_then (pop (queue1 s)) (\<lambda>r.
           Returns (v, s\<lparr>queue1 := r\<rparr>)))))"

definition ThreadSafeQueue1_TryPop_out ::
    "'a \<Rightarrow> 'a ThreadSafeQueue1 \<Rightarrow> (bool \<times> 'a \<times> 'a ThreadSafeQueue1) outcome" where
  "ThreadSafeQueue1_TryPop_out val s =
     (if queue1 s = [] then Returns (False, val, s)
      else and_then (front (queue1 s)) (\<lambda>v.
           and_then (pop (queue1 s)) (\<lambda>r.
           Returns (True, v, s\<lparr>queue1 := r\<rparr>))))"

definition ThreadSafeQueue1_TryPop ::
    "nat \<Rightarrow> 'a ThreadSafeQueue1 \<Rightarrow> ('a shared_ptr \<times> 'a ThreadSafeQueue1) outcome" where
  "ThreadSafeQueue1_TryPop mem s =
     (if queue1 s = [] then Returns (None, s)
      else and_then (front (queue1 s)) (\<lambda>x.
           and_then (make_shared mem x) (\<lambda>res.
           and_then (pop (queue1 s)) (\<lambda>r.
           Returns (res, s\<lparr>queue1 := r\<rparr>)))))"

section \<open>SimpleLockedQueue and SimpleLockedQueue1 (simple_locked_queue.h)\<close>

text \<open>
  The two classes of simple_locked_queue.h have the data members of the two classes above
  and implement the abstract interface of thread_safe_queue.h; their states are the same
  records. The member functions are transcribed from their own source text.
\<close>

type_synonym 'a SimpleLockedQueue = "'a ThreadSafeQueue"

type_synonym 'a SimpleLockedQueue1 = "'a ThreadSafeQueue1"

definition SimpleLockedQueue_new :: "'a SimpleLockedQueue" where
  "SimpleLockedQueue_new = \<lparr>queue = []\<rparr>"

definition SimpleLockedQueue_Empty :: "'a SimpleLockedQueue \<Rightarrow> bool" where
  "SimpleLockedQueue_Empty s = (queue s = [])"

definition SimpleLockedQueue_Push ::
    "nat \<Rightarrow> nat \<Rightarrow> 'a \<Rightarrow> 'a SimpleLockedQueue \<Rightarrow> 'a SimpleLockedQueue outcome" where
  "SimpleLockedQueue_Push mem need v s =
     and_then (make_shared mem v) (\<lambda>data.
     and_then (push (mem - 1) need data (queue s)) (\<lambda>r.
     Returns (s\<lparr>queue := r\<rparr>)))"

definition SimpleLockedQueue_WaitAndPop_out ::
    "'a \<Rightarrow> 'a SimpleLockedQueue \<Rightarrow> ('a \<times> 'a SimpleLockedQueue) outcome" where
  "SimpleLockedQueue_WaitAndPop_out val s =
     (if queue s = [] then Blocks
      else and_then (front (queue s)) (\<lambda>p.
           and_then (deref p) (\<lambda>v.
           and_then (pop (queue s)) (\<lambda>r.
           Returns (v, s\<lparr>queue := r\<rparr>)))))"

definition SimpleLockedQueue_WaitAndPop ::
    "'a SimpleLockedQueue \<Rightarrow> ('a shared_ptr \<times> 'a SimpleLockedQueue) outcome" where
  "SimpleLockedQueue_WaitAndPop s =
     (if queue s = [] then Blocks
      else and_then (front (queue s)) (\<lambda>res.
           and_then (pop (queue s)) (\<lambda>r.
           Returns (res, s\<lparr>queue := r\<rparr>))))"

definition SimpleLockedQueue_TryPop_out ::
    "'a \<Rightarrow> 'a SimpleLockedQueue \<Rightarrow> (bool \<times> 'a \<times> 'a SimpleLockedQueue) outcome" where
  "SimpleLockedQueue_TryPop_out val s =
     (if queue s = [] then Returns (False, val, s)
      else and_then (front (queue s)) (\<lambda>p.
           and_then (deref p) (\<lambda>v.
           and_then (pop (queue s)) (\<lambda>r.
           Returns (True, v, s\<lparr>queue := r\<rparr>)))))"

definition SimpleLockedQueue_TryPop ::
    "'a SimpleLockedQueue \<Rightarrow> ('a shared_ptr \<times> 'a SimpleLockedQueue) outcome" where
  "SimpleLockedQueue_TryPop s =
     (if queue s = [] then Returns (None, s)
      else and_then (front (queue s)) (\<lambda>res.
           and_then (pop (queue s)) (\<lambda>r.
           Returns (res, s\<lparr>queue := r\<rparr>))))"

definition SimpleLockedQueue1_new :: "'a SimpleLockedQueue1" where
  "SimpleLockedQueue1_new = \<lparr>queue1 = []\<rparr>"

definition SimpleLockedQueue1_Empty :: "'a SimpleLockedQueue1 \<Rightarrow> bool" where
  "SimpleLockedQueue1_Empty s = (queue1 s = [])"

definition SimpleLockedQueue1_Push ::
    "nat \<Rightarrow> nat \<Rightarrow> 'a \<Rightarrow> 'a SimpleLockedQueue1 \<Rightarrow> 'a SimpleLockedQueue1 outcome" where
  "SimpleLockedQueue1_Push mem need v s =
     and_then (push mem need v (queue1 s)) (\<lambda>r.
     Returns (s\<lparr>queue1 := r\<rparr>))"

definition SimpleLockedQueue1_WaitAndPop_out ::
    "'a \<Rightarrow> 'a SimpleLockedQueue1 \<Rightarrow> ('a \<times> 'a SimpleLockedQueue1) outcome" where
  "SimpleLockedQueue1_WaitAndPop_out val s =
     (if queue1 s = [] then Blocks
      else and_then (front (queue1 s)) (\<lambda>v.
           and_then (pop (queue1 s)) (\<lambda>r.
           Returns (v, s\<lparr>queue1 := r\<rparr>))))"

definition SimpleLockedQueue1_WaitAndPop ::
    "nat \<Rightarrow> 'a SimpleLockedQueue1 \<Rightarrow> ('a shared_ptr \<times> 'a SimpleLockedQueue1) outcome" where
  "SimpleLockedQueue1_WaitAndPop mem s =
     (if queue1 s = [] then Blocks
      else and_then (front (queue1 s)) (\<lambda>x.
           and_then (make_shared mem x) (\<lambda>v.
           and_then (pop (queue1 s)) (\<lambda>r.
           Returns (v, s\<lparr>queue1 := r\<rparr>)))))"

definition SimpleLockedQueue1_TryPop_out ::
    "'a \<Rightarrow> 'a SimpleLockedQueue1 \<Rightarrow> (bool \<times> 'a \<times> 'a SimpleLockedQueue1) outcome" where
  "SimpleLockedQueue1_TryPop_out val s =
     (if queue1 s = [] then Returns (False, val, s)
      else and_then (front (queue1 s)) (\<lambda>v.
           and_then (pop (queue1 s)) (\<lambda>r.
           Returns (True, v, s\<lparr>queue1 := r\<rparr>))))"

definition SimpleLockedQueue1_TryPop ::
    "nat \<Rightarrow> 'a SimpleLockedQueue1 \<Rightarrow> ('a shared_ptr \<times> 'a SimpleLockedQueue1) outcome" where
  "SimpleLockedQueue1_TryPop mem s =
     (if queue1 s = [] then Returns (None, s)
      else and_then (front (queue1 s)) (\<lambda>x.
           and_then (make_shared mem x) (\<lambda>res.
           and_then (pop (queue1 s)) (\<lambda>r.
           Returns (res, s\<lparr>queue1 := r\<rparr>)))))"

section \<open>LockedQueue (locked_queue.h)\<close>

text \<open>
  The nodes of the linked queue live in a store: a list of cells indexed by address, a cell
  being a live \<^verbatim>\<open>Node\<close> or freed memory (\<open>None\<close>). A pointer to a node is null
  (\<open>None\<close>) or an address; \<^verbatim>\<open>std::unique_ptr<Node>\<close> and the raw \<^verbatim>\<open>Node*\<close> are both
  such pointers, so that \<^verbatim>\<open>head_.get() == GetTail()\<close> compares addresses.
  \<^verbatim>\<open>new Node\<close> takes the next unused address (addresses are not reused) and throws
  \<^verbatim>\<open>std::bad_alloc\<close> when the allocator has nothing left. Going through a null or
  dangling pointer is undefined behaviour.
\<close>

type_synonym ptr = "nat option"

record 'a Node =
  data :: "'a shared_ptr"
  nxt :: ptr

type_synonym 'a store = "'a Node option list"

definition new_Node :: "nat \<Rightarrow> 'a store \<Rightarrow> (nat \<times> 'a store) outcome" where
  "new_Node mem h =
     (if mem = 0 then Throws bad_alloc
      else Returns (length h, h @ [Some \<lparr>data = None, nxt = None\<rparr>]))"

definition load :: "'a store \<Rightarrow> ptr \<Rightarrow> 'a Node outcome" where
  "load h p =
     (case p of
        None \<Rightarrow> Undefined
      | Some a \<Rightarrow>
          if a < length h then (case h ! a of None \<Rightarrow> Undefined | Some nd \<Rightarrow> Returns nd)
          else Undefined)"

definition live :: "'a store \<Rightarrow> nat" where
  "live h = length (filter (\<lambda>c. c \<noteq> None) h)"

lemma live_free: "a < length h \<Longrightarrow> h ! a = Some nd \<Longrightarrow> live (h[a := None]) < live h"
proof (induction h arbitrary: a)
  case Nil
  then show ?case by simp
next
  case (Cons c h)
  show ?case
  proof (cases a)
    case 0
    with Cons.prems show ?thesis by (simp add: live_def)
  next
    case (Suc b)
    with Cons.prems have "live (h[b := None]) < live h"
      by (intro Cons.IH) simp_all
    with Suc show ?thesis by (simp add: live_def)
  qed
qed

text \<open>
  \<^verbatim>\<open>delete p\<close>, as the destructor of a \<^verbatim>\<open>std::unique_ptr<Node>\<close> runs it: nothing for
  a null pointer; otherwise the node's own \<^verbatim>\<open>next_\<close> member is destroyed too, which deletes
  the successor, and so on down the chain. Deleting memory that is not a live node is
  undefined behaviour.
\<close>

function delete_Node :: "ptr \<Rightarrow> 'a store \<Rightarrow> 'a store outcome" where
  "delete_Node None h = Returns h"
| "delete_Node (Some a) h =
     (if a < length h then
        (case h ! a of
           None \<Rightarrow> Undefined
         | Some nd \<Rightarrow> delete_Node (nxt nd) (h[a := None]))
      else Undefined)"
  by pat_completeness auto
termination
  by (relation "measure (\<lambda>(p, h). live h)") (auto simp: live_free)

record 'a LockedQueue =
  store :: "'a store"
  head :: ptr
  tail :: ptr

definition LockedQueue_new :: "nat \<Rightarrow> 'a LockedQueue outcome" where
  "LockedQueue_new mem =
     and_then (new_Node mem []) (\<lambda>(a, h).
     Returns \<lparr>store = h, head = Some a, tail = Some a\<rparr>)"

definition GetTail :: "'a LockedQueue \<Rightarrow> ptr" where
  "GetTail lq = tail lq"

definition LockedQueue_Empty :: "'a LockedQueue \<Rightarrow> bool" where
  "LockedQueue_Empty lq = (head lq = GetTail lq)"

text \<open>
  \<^verbatim>\<open>PopHead\<close>: \<^verbatim>\<open>old_head\<close> takes the pointer out of \<^verbatim>\<open>head_\<close>, then \<^verbatim>\<open>head_\<close> takes
  the pointer out of \<^verbatim>\<open>old_head->next_\<close>, which is left null.
\<close>

definition PopHead :: "'a LockedQueue \<Rightarrow> (ptr \<times> 'a LockedQueue) outcome" where
  "PopHead lq =
     (case head lq of
        None \<Rightarrow> Undefined
      | Some a \<Rightarrow>
          and_then (load (store lq) (Some a)) (\<lambda>nd.
          Returns (Some a,
            lq\<lparr>store := (store lq)[a := Some (nd\<lparr>nxt := None\<rparr>)], head := nxt nd\<rparr>)))"

text \<open>
  \<^verbatim>\<open>WaitForData\<close>: \<^verbatim>\<open>cv_.wait(head_lock, pred)\<close> evaluates the predicate under
  \<^verbatim>\<open>head_mu_\<close> and returns, still holding the lock, when it is true; otherwise the caller
  parks. \<^verbatim>\<open>Push\<close> calls \<^verbatim>\<open>cv_.notify_one()\<close> without holding \<^verbatim>\<open>head_mu_\<close>, so it can
  notify after a caller has found the predicate false and before that caller is parked,
  when there is nobody to wake. The outcome \<open>Blocks\<close> therefore promises no later return.
\<close>

definition WaitForData :: "'a LockedQueue \<Rightarrow> unit outcome" where
  "WaitForData lq = (if head lq \<noteq> GetTail lq then Returns () else Blocks)"

definition WaitPopHead :: "'a LockedQueue \<Rightarrow> (ptr \<times> 'a LockedQueue) outcome" where
  "WaitPopHead lq = and_then (WaitForData lq) (\<lambda>_. PopHead lq)"

definition WaitPopHead_out ::
    "'a \<Rightarrow> 'a LockedQueue \<Rightarrow> (ptr \<times> 'a \<times> 'a LockedQueue) outcome" where
  "WaitPopHead_out val lq =
     and_then (WaitForData lq) (\<lambda>_.
     and_then (load (store lq) (head lq)) (\<lambda>nd.
     and_then (deref (data nd)) (\<lambda>v.
     and_then (PopHead lq) (\<lambda>(old_head, lq').
     Returns (old_head, v, lq')))))"

definition TryPopHead :: "'a LockedQueue \<Rightarrow> (ptr \<times> 'a LockedQueue) outcome" where
  "TryPopHead lq =
     (if head lq = GetTail lq then Returns (None, lq)
      else PopHead lq)"

definition TryPopHead_out ::
    "'a \<Rightarrow> 'a LockedQueue \<Rightarrow> (ptr \<times> 'a \<times> 'a LockedQueue) outcome" where
  "TryPopHead_out val lq =
     (if head lq = GetTail lq then Returns (None, val, lq)
      else and_then (load (store lq) (head lq)) (\<lambda>nd.
           and_then (deref (data nd)) (\<lambda>v.
           and_then (PopHead lq) (\<lambda>(old_head, lq').
           Returns (old_head, v, lq')))))"

text \<open>
  \<^verbatim>\<open>TryPopHead\<close> holds \<^verbatim>\<open>head_mu_\<close> throughout, but \<^verbatim>\<open>tail_mu_\<close> only inside \<^verbatim>\<open>GetTail\<close>: a
  \<^verbatim>\<open>Push\<close> of another thread can run between the read of \<^verbatim>\<open>tail_\<close> and the comparison.
  \<^verbatim>\<open>TryPopHead_at t\<close> is the part of \<^verbatim>\<open>TryPopHead\<close> after \<^verbatim>\<open>GetTail\<close> has returned \<^verbatim>\<open>t\<close>.
\<close>

definition TryPopHead_at :: "ptr \<Rightarrow> 'a LockedQueue \<Rightarrow> (ptr \<times> 'a LockedQueue) outcome" where
  "TryPopHead_at t lq =
     (if head lq = t then Returns (None, lq)
      else PopHead lq)"

text \<open>
  The public pops. The local \<^verbatim>\<open>old_head\<close> owns the detached node; its destructor
  deletes the node when the function returns.
\<close>

definition LockedQueue_TryPop ::
    "'a LockedQueue \<Rightarrow> ('a shared_ptr \<times> 'a LockedQueue) outcome" where
  "LockedQueue_TryPop lq =
     and_then (TryPopHead lq) (\<lambda>(old_head, lq').
       if old_head \<noteq> None then
         and_then (load (store lq') old_head) (\<lambda>nd.
         and_then (delete_Node old_head (store lq')) (\<lambda>h.
         Returns (data nd, lq'\<lparr>store := h\<rparr>)))
       else Returns (None, lq'))"

definition LockedQueue_TryPop_out ::
    "'a \<Rightarrow> 'a LockedQueue \<Rightarrow> (bool \<times> 'a \<times> 'a LockedQueue) outcome" where
  "LockedQueue_TryPop_out val lq =
     and_then (TryPopHead_out val lq) (\<lambda>(old_head, v, lq').
     and_then (delete_Node old_head (store lq')) (\<lambda>h.
     Returns (old_head \<noteq> None, v, lq'\<lparr>store := h\<rparr>)))"

definition LockedQueue_WaitAndPop ::
    "'a LockedQueue \<Rightarrow> ('a shared_ptr \<times> 'a LockedQueue) outcome" where
  "LockedQueue_WaitAndPop lq =
     and_then (WaitPopHead lq) (\<lambda>(old_head, lq').
     and_then (load (store lq') old_head) (\<lambda>nd.
     and_then (delete_Node old_head (store lq')) (\<lambda>h.
     Returns (data nd, lq'\<lparr>store := h\<rparr>))))"

definition LockedQueue_WaitAndPop_out ::
    "'a \<Rightarrow> 'a LockedQueue \<Rightarrow> ('a \<times> 'a LockedQueue) outcome" where
  "LockedQueue_WaitAndPop_out val lq =
     and_then (WaitPopHead_out val lq) (\<lambda>(old_head, v, lq').
     and_then (delete_Node old_head (store lq')) (\<lambda>h.
     Returns (v, lq'\<lparr>store := h\<rparr>)))"

text \<open>
  \<^verbatim>\<open>Push\<close>: both allocations come first. Then, on the node \<^verbatim>\<open>tail_\<close> points to, the
  payload pointer is stored and \<^verbatim>\<open>next_\<close> takes over the new node; the assignment to
  \<^verbatim>\<open>next_\<close> deletes whatever \<^verbatim>\<open>next_\<close> owned before. Last, \<^verbatim>\<open>tail_\<close> moves to the new
  node.
\<close>

definition LockedQueue_Push ::
    "nat \<Rightarrow> 'a \<Rightarrow> 'a LockedQueue \<Rightarrow> 'a LockedQueue outcome" where
  "LockedQueue_Push mem v lq =
     and_then (make_shared mem v) (\<lambda>d.
     and_then (new_Node (mem - 1) (store lq)) (\<lambda>(p, h).
     (case tail lq of
        None \<Rightarrow> Undefined
      | Some ta \<Rightarrow>
          and_then (load h (Some ta)) (\<lambda>t.
          and_then (delete_Node (nxt t) (h[ta := Some (t\<lparr>data := d, nxt := Some p\<rparr>)])) (\<lambda>h'.
          Returns (lq\<lparr>store := h', tail := Some p\<rparr>))))))"

text \<open>
  A caller of \<^verbatim>\<open>WaitAndPop()\<close>, cut at the control points of
  \<^verbatim>\<open>cv_.wait(head_lock, pred)\<close>. The caller holds \<^verbatim>\<open>head_mu_\<close> and is about to evaluate the
  predicate (\<open>Testing\<close>); or it has found the predicate false and is about to release
  \<^verbatim>\<open>head_mu_\<close> and park, which \<^verbatim>\<open>wait\<close> does as one step (\<open>Parking\<close>); or it is parked on
  \<^verbatim>\<open>cv_\<close> (\<open>Parked\<close>); or it has popped and holds the pointer it returns (\<open>Popped\<close>). A
  caller that finds the predicate true pops under the same hold of \<^verbatim>\<open>head_mu_\<close>.
  \<^verbatim>\<open>cv_.notify_one()\<close> wakes one parked caller if there is one (here the first), which
  then evaluates the predicate again; it does nothing when nobody is parked.
\<close>

datatype 'a waiter = Testing | Parking | Parked | Popped "'a shared_ptr"

definition waiter_step :: "'a waiter \<Rightarrow> 'a LockedQueue \<Rightarrow> ('a waiter \<times> 'a LockedQueue) outcome" where
  "waiter_step c lq =
     (case c of
        Testing \<Rightarrow>
          if head lq \<noteq> GetTail lq then
            and_then (LockedQueue_WaitAndPop lq) (\<lambda>(p, lq'). Returns (Popped p, lq'))
          else Returns (Parking, lq)
      | Parking \<Rightarrow> Returns (Parked, lq)
      | Parked \<Rightarrow> Returns (Parked, lq)
      | Popped p \<Rightarrow> Returns (Popped p, lq))"

fun notify_one :: "'a waiter list \<Rightarrow> 'a waiter list" where
  "notify_one [] = []"
| "notify_one (c # cs) = (if c = Parked then Testing # cs else c # notify_one cs)"

section \<open>The abstract interface (thread_safe_queue.h) and sequences of calls\<close>

text \<open>
  The abstract class \<^verbatim>\<open>ThreadSafeQueue<T>\<close> of thread_safe_queue.h declares six virtual
  member functions; an implementation is a record of the six functions over its own state
  type \<open>'q\<close>. \<^verbatim>\<open>SimpleLockedQueue\<close> and \<^verbatim>\<open>LockedQueue\<close> derive from it; the class
  \<^verbatim>\<open>ThreadSafeQueue\<close> of simple_thread_safe_queue.h has the same six member functions.
\<close>

record ('q, 'a) ThreadSafeQueue_interface =
  iEmpty :: "'q \<Rightarrow> bool"
  iPush :: "nat \<Rightarrow> nat \<Rightarrow> 'a \<Rightarrow> 'q \<Rightarrow> 'q outcome"
  iWaitAndPop_out :: "'a \<Rightarrow> 'q \<Rightarrow> ('a \<times> 'q) outcome"
  iWaitAndPop :: "'q \<Rightarrow> ('a shared_ptr \<times> 'q) outcome"
  iTryPop_out :: "'a \<Rightarrow> 'q \<Rightarrow> (bool \<times> 'a \<times> 'q) outcome"
  iTryPop :: "'q \<Rightarrow> ('a shared_ptr \<times> 'q) outcome"

definition ThreadSafeQueue_interface ::
    "('a ThreadSafeQueue, 'a) ThreadSafeQueue_interface" where
  "ThreadSafeQueue_interface =
     \<lparr>iEmpty = ThreadSafeQueue_Empty, iPush = ThreadSafeQueue_Push,
      iWaitAndPop_out = ThreadSafeQueue_WaitAndPop_out, iWaitAndPop = ThreadSafeQueue_WaitAndPop,
      iTryPop_out = ThreadSafeQueue_TryPop_out, iTryPop = ThreadSafeQueue_TryPop\<rparr>"

definition SimpleLockedQueue_interface ::
    "('a SimpleLockedQueue, 'a) ThreadSafeQueue_interface" where
  "SimpleLockedQueue_interface =
     \<lparr>iEmpty = SimpleLockedQueue_Empty, iPush = SimpleLockedQueue_Push,
      iWaitAndPop_out = SimpleLockedQueue_WaitAndPop_out,
      iWaitAndPop = SimpleLockedQueue_WaitAndPop,
      iTryPop_out = SimpleLockedQueue_TryPop_out, iTryPop = SimpleLockedQueue_TryPop\<rparr>"

definition LockedQueue_interface ::
    "('a LockedQueue, 'a) ThreadSafeQueue_interface" where
  "LockedQueue_interface =
     \<lparr>iEmpty = LockedQueue_Empty, iPush = (\<lambda>mem need. LockedQueue_Push mem),
      iWaitAndPop_out = LockedQueue_WaitAndPop_out, iWaitAndPop = LockedQueue_WaitAndPop,
      iTryPop_out = LockedQueue_TryPop_out, iTryPop = LockedQueue_TryPop\<rparr>"

text \<open>
  The calls that producer and consumer threads make on one queue, in the single global
  order in which the queue serves them. \<open>Call_Push mem need v\<close> is a \<^verbatim>\<open>Push(v)\<close> made
  while the allocator can satisfy \<open>mem\<close> allocations and the container of the queue asks
  for \<open>need\<close> allocations to take one more element (\<^verbatim>\<open>LockedQueue\<close> has no container and
  does not look at \<open>need\<close>); the argument of the two \<open>_out\<close> calls is the content of the
  caller's variable before the call. A blocking pop stands in the sequence where its
  predicate is evaluated.

  A history is the queue together with two logs: \<open>pushed\<close>, the values whose Push returned,
  and \<open>received\<close>, the values the pops handed to their callers, both in call order. A
  value-returning pop hands over the value its pointer points to (nothing for a null
  pointer), a \<^verbatim>\<open>TryPop(T*)\<close> hands over the content of the variable when it returns
  \<^verbatim>\<open>true\<close>. A call that throws, or parks its caller, hands over nothing and leaves the
  history as it is. A parked caller that is woken evaluates its predicate again: that is
  one more blocking pop later in the sequence. The sequences cover every way of waking
  parked callers, also waking none; nothing below says that a parked caller is woken.
  After undefined behaviour there is no history. \<open>is_pop\<close> holds of the four pops.
\<close>

datatype 'a call =
    Call_Push nat nat 'a
  | Call_TryPop
  | Call_TryPop_out 'a
  | Call_WaitAndPop
  | Call_WaitAndPop_out 'a
  | Call_Empty

type_synonym ('q, 'a) history = "'q \<times> 'a list \<times> 'a list"

definition settle :: "'r outcome \<Rightarrow> 'h \<Rightarrow> ('r \<Rightarrow> 'h) \<Rightarrow> 'h option" where
  "settle out h f =
     (case out of
        Returns r \<Rightarrow> Some (f r)
      | Throws e \<Rightarrow> Some h
      | Blocks \<Rightarrow> Some h
      | Undefined \<Rightarrow> None
      | Terminates \<Rightarrow> None)"

definition pointee :: "'a shared_ptr \<Rightarrow> 'a list" where
  "pointee p = (case p of None \<Rightarrow> [] | Some v \<Rightarrow> [v])"

fun serve :: "('q, 'a) ThreadSafeQueue_interface \<Rightarrow> 'a call \<Rightarrow> ('q, 'a) history
    \<Rightarrow> ('q, 'a) history option" where
  "serve I (Call_Push mem need v) (s, pushed, received) =
     settle (iPush I mem need v s) (s, pushed, received) (\<lambda>s'. (s', pushed @ [v], received))"
| "serve I Call_TryPop (s, pushed, received) =
     settle (iTryPop I s) (s, pushed, received) (\<lambda>(p, s'). (s', pushed, received @ pointee p))"
| "serve I (Call_TryPop_out val) (s, pushed, received) =
     settle (iTryPop_out I val s) (s, pushed, received)
       (\<lambda>(b, v, s'). (s', pushed, if b then received @ [v] else received))"
| "serve I Call_WaitAndPop (s, pushed, received) =
     settle (iWaitAndPop I s) (s, pushed, received)
       (\<lambda>(p, s'). (s', pushed, received @ pointee p))"
| "serve I (Call_WaitAndPop_out val) (s, pushed, received) =
     settle (iWaitAndPop_out I val s) (s, pushed, received)
       (\<lambda>(v, s'). (s', pushed, received @ [v]))"
| "serve I Call_Empty (s, pushed, received) =
     (let b = iEmpty I s in Some (s, pushed, received))"

fun run :: "('q, 'a) ThreadSafeQueue_interface \<Rightarrow> 'a call list \<Rightarrow> ('q, 'a) history
    \<Rightarrow> ('q, 'a) history option" where
  "run I [] h = Some h"
| "run I (c # cs) h = (case serve I c h of None \<Rightarrow> None | Some h' \<Rightarrow> run I cs h')"


section \<open>Representation of the logical queue\<close>

text \<open>
  \<open>path h p as r\<close>: following \<^verbatim>\<open>next_\<close> from pointer \<open>p\<close> visits the live nodes \<open>as\<close>, in
  this order, and arrives at pointer \<open>r\<close>. \<open>payload h a\<close> is the \<^verbatim>\<open>data_\<close> of node \<open>a\<close>.
  \<open>LockedQueue_repr lq as t vs\<close>: the chain owned by \<^verbatim>\<open>head_\<close> is \<open>as\<close> followed by the
  node \<open>t\<close> that \<^verbatim>\<open>tail_\<close> points to, it ends there, and the nodes \<open>as\<close> carry the values
  \<open>vs\<close>, oldest first. \<open>ThreadSafeQueue_repr s vs\<close>: the container holds pointers to \<open>vs\<close>.
\<close>

primrec path :: "'a store \<Rightarrow> ptr \<Rightarrow> nat list \<Rightarrow> ptr \<Rightarrow> bool" where
  "path h p [] r \<longleftrightarrow> p = r"
| "path h p (a # as) r \<longleftrightarrow>
     p = Some a \<and> a < length h \<and>
     (case h ! a of None \<Rightarrow> False | Some nd \<Rightarrow> path h (nxt nd) as r)"

definition payload :: "'a store \<Rightarrow> nat \<Rightarrow> 'a shared_ptr" where
  "payload h a = (case h ! a of None \<Rightarrow> None | Some nd \<Rightarrow> data nd)"

definition LockedQueue_repr :: "'a LockedQueue \<Rightarrow> nat list \<Rightarrow> nat \<Rightarrow> 'a list \<Rightarrow> bool" where
  "LockedQueue_repr lq as t vs \<longleftrightarrow>
     path (store lq) (head lq) (as @ [t]) None \<and> tail lq = Some t \<and>
     map (payload (store lq)) as = map Some vs"

definition ThreadSafeQueue_repr :: "'a ThreadSafeQueue \<Rightarrow> 'a list \<Rightarrow> bool" where
  "ThreadSafeQueue_repr s vs \<longleftrightarrow> queue s = map Some vs"

text \<open>
  The contract of a first-in first-out queue, against which the implementations are
  compared: \<open>R s vs\<close> reads "state \<open>s\<close> holds the values \<open>vs\<close>, oldest first". A Push
  either returns with the value appended or throws \<^verbatim>\<open>std::bad_alloc\<close>; on a queue that
  holds \<open>v # vs\<close> every pop returns \<open>v\<close> and leaves \<open>vs\<close>; on a queue that holds nothing
  the two TryPop return "no value" and change nothing, and the two WaitAndPop park.
  \<open>LockedQueue_holds\<close> is \<open>LockedQueue_repr\<close> for some chain of nodes.
\<close>

definition fifo_contract ::
    "('q, 'a) ThreadSafeQueue_interface \<Rightarrow> ('q \<Rightarrow> 'a list \<Rightarrow> bool) \<Rightarrow> bool" where
  "fifo_contract I R \<longleftrightarrow>
     (\<forall>s vs mem need v. R s vs \<longrightarrow>
        (\<exists>s'. iPush I mem need v s = Returns s' \<and> R s' (vs @ [v])) \<or>
        iPush I mem need v s = Throws bad_alloc) \<and>
     (\<forall>s v vs. R s (v # vs) \<longrightarrow>
        (\<exists>s'. iTryPop I s = Returns (Some v, s') \<and> R s' vs) \<and>
        (\<exists>s'. iWaitAndPop I s = Returns (Some v, s') \<and> R s' vs) \<and>
        (\<forall>val. \<exists>s'. iTryPop_out I val s = Returns (True, v, s') \<and> R s' vs) \<and>
        (\<forall>val. \<exists>s'. iWaitAndPop_out I val s = Returns (v, s') \<and> R s' vs)) \<and>
     (\<forall>s. R s [] \<longrightarrow>
        iTryPop I s = Returns (None, s) \<and> iWaitAndPop I s = Blocks \<and>
        (\<forall>val. iTryPop_out I val s = Returns (False, val, s)) \<and>
        (\<forall>val. iWaitAndPop_out I val s = Blocks))"

definition LockedQueue_holds :: "'a LockedQueue \<Rightarrow> 'a list \<Rightarrow> bool" where
  "LockedQueue_holds lq vs \<longleftrightarrow> (\<exists>as t. LockedQueue_repr lq as t vs)"

text \<open>
  A caller that calls TryPop \<open>n\<close> times in a row, collecting what it gets: the pointers
  returned, or the \<^verbatim>\<open>bool\<close>s returned together with the last content of its variable.
\<close>

fun repeat_TryPop ::
    "nat \<Rightarrow> ('s \<Rightarrow> ('a shared_ptr \<times> 's) outcome) \<Rightarrow> 's \<Rightarrow> ('a shared_ptr list \<times> 's) outcome" where
  "repeat_TryPop 0 f s = Returns ([], s)"
| "repeat_TryPop (Suc n) f s =
     and_then (f s) (\<lambda>(p, s').
     and_then (repeat_TryPop n f s') (\<lambda>(ps, s'').
     Returns (p # ps, s'')))"

fun repeat_TryPop_out ::
    "nat \<Rightarrow> ('a \<Rightarrow> 's \<Rightarrow> (bool \<times> 'a \<times> 's) outcome) \<Rightarrow> 'a \<Rightarrow> 's
     \<Rightarrow> (bool list \<times> 'a \<times> 's) outcome" where
  "repeat_TryPop_out 0 f val s = Returns ([], val, s)"
| "repeat_TryPop_out (Suc n) f val s =
     and_then (f val s) (\<lambda>(b, val', s').
     and_then (repeat_TryPop_out n f val' s') (\<lambda>(bs, val'', s'').
     Returns (b # bs, val'', s'')))"

section \<open>FunctionWrapper and the tasks of the pool\<close>

text \<open>
  The queues of the pool hold \<^verbatim>\<open>FunctionWrapper\<close> objects. A \<^verbatim>\<open>FunctionWrapper\<close> owns
  its callable through \<^verbatim>\<open>std::unique_ptr<ImplBase> impl_\<close>: null for a default-constructed
  wrapper (\<open>None\<close>), otherwise the callable, which \<^verbatim>\<open>Submit\<close> means to be a
  \<^verbatim>\<open>std::packaged_task\<close>: a callable \<open>fn\<close> together with a shared state into which the
  call stores the result and from which the \<^verbatim>\<open>std::future\<close> reads it. The shared states
  are cells of a list, \<open>None\<close> while not ready; a task names its cell by its index. A
  callable is a function from \<open>unit\<close>; what it returns may stand for a result or for the
  exception it raised, which a packaged task stores the same way. Calling a packaged task
  a second time throws \<^verbatim>\<open>std::future_error\<close>; calling an empty wrapper goes through the
  null \<^verbatim>\<open>impl_\<close>.
\<close>

record 'r packaged_task =
  fn :: "unit \<Rightarrow> 'r"
  shared_state :: nat

type_synonym 'r FunctionWrapper = "'r packaged_task option"

type_synonym 'r shared_states = "'r option list"

definition packaged_task_call ::
    "'r packaged_task \<Rightarrow> 'r shared_states \<Rightarrow> 'r shared_states outcome" where
  "packaged_task_call task ss =
     (if shared_state task < length ss then
        (case ss ! shared_state task of
           None \<Rightarrow> Returns (ss[shared_state task := Some (fn task ())])
         | Some r \<Rightarrow> Throws future_error)
      else Undefined)"

definition FunctionWrapper_call ::
    "'r FunctionWrapper \<Rightarrow> 'r shared_states \<Rightarrow> 'r shared_states outcome" where
  "FunctionWrapper_call w ss =
     (case w of None \<Rightarrow> Undefined | Some f \<Rightarrow> packaged_task_call f ss)"

section \<open>ThreadPool\<close>

text \<open>
  A \<^verbatim>\<open>std::thread\<close> of \<^verbatim>\<open>threads_\<close> is \<open>Thread i\<close> while it is joinable and runs
  \<^verbatim>\<open>Worker(i)\<close>, and \<open>Joined\<close> after \<^verbatim>\<open>join()\<close>. The two \<^verbatim>\<open>thread_local\<close> members
  are a record that every thread has of its own; \<^verbatim>\<open>local_task_queue_\<close> points to an
  element of \<^verbatim>\<open>local_task_queues_\<close>, given by its index, or is null. A thread that is not
  a worker has both zero-initialised. Besides the data members, the state carries the
  shared states of the packaged tasks and the number of calls of
  \<^verbatim>\<open>std::this_thread::yield()\<close> made so far.
\<close>

datatype thread = Thread nat | Joined

definition joinable :: "thread \<Rightarrow> bool" where
  "joinable t = (t \<noteq> Joined)"

record 'r ThreadPool =
  "done" :: bool
  global_task_queue :: "'r FunctionWrapper LockedQueue"
  local_task_queues :: "'r FunctionWrapper WorkStealingQueue list"
  threads :: "thread list"
  shared_states :: "'r shared_states"
  yields :: nat

record thread_locals =
  local_task_queue :: "nat option"
  my_index :: nat

text \<open>
  The three sources of a task. The out-parameter \<^verbatim>\<open>task\<close> is threaded through. In
  \<^verbatim>\<open>PopTaskFromOtherThreadQueue\<close> the loop variable \<open>i\<close> and \<^verbatim>\<open>my_index_\<close> are
  \<^verbatim>\<open>unsigned\<close>: their sum wraps at \<open>2 ^ 32\<close> before it is reduced modulo the number of
  deques (\<open>steal_index\<close> is the expression that initialises \<^verbatim>\<open>index\<close>). (\<open>i\<close> itself cannot wrap: the number of deques is the \<^verbatim>\<open>unsigned\<close> value that
  \<^verbatim>\<open>hardware_concurrency()\<close> returned.)
\<close>

definition PopTaskFromLocalQueue ::
    "'r FunctionWrapper \<Rightarrow> thread_locals \<Rightarrow> 'r ThreadPool
     \<Rightarrow> (bool \<times> 'r FunctionWrapper \<times> 'r ThreadPool) outcome" where
  "PopTaskFromLocalQueue task me p =
     (case local_task_queue me of
        None \<Rightarrow> Returns (False, task, p)
      | Some k \<Rightarrow>
          if k < length (local_task_queues p) then
            and_then (WorkStealingQueue_TryPop task (local_task_queues p ! k)) (\<lambda>(b, t, w).
            Returns (b, t, p\<lparr>local_task_queues := (local_task_queues p)[k := w]\<rparr>))
          else Undefined)"

definition PopTaskFromGlobalQueue ::
    "'r FunctionWrapper \<Rightarrow> 'r ThreadPool
     \<Rightarrow> (bool \<times> 'r FunctionWrapper \<times> 'r ThreadPool) outcome" where
  "PopTaskFromGlobalQueue task p =
     and_then (LockedQueue_TryPop_out task (global_task_queue p)) (\<lambda>(b, t, g).
     Returns (b, t, p\<lparr>global_task_queue := g\<rparr>))"

definition steal_index :: "nat \<Rightarrow> nat \<Rightarrow> nat \<Rightarrow> nat" where
  "steal_index me i n = ((me + 1 + i) mod 2 ^ 32) mod n"

function PopTaskFromOtherThreadQueue_from ::
    "nat \<Rightarrow> 'r FunctionWrapper \<Rightarrow> thread_locals \<Rightarrow> 'r ThreadPool
     \<Rightarrow> (bool \<times> 'r FunctionWrapper \<times> 'r ThreadPool) outcome" where
  "PopTaskFromOtherThreadQueue_from i task me p =
     (if i < length (local_task_queues p) then
        (let index = steal_index (my_index me) i (length (local_task_queues p))
         in and_then (WorkStealingQueue_TrySteal task (local_task_queues p ! index)) (\<lambda>(b, t, w).
            if b then Returns (True, t, p\<lparr>local_task_queues := (local_task_queues p)[index := w]\<rparr>)
            else PopTaskFromOtherThreadQueue_from (i + 1) t me
                   (p\<lparr>local_task_queues := (local_task_queues p)[index := w]\<rparr>)))
      else Returns (False, task, p))"
  by pat_completeness auto
termination
  by (relation "measure (\<lambda>(i, task, me, p). length (local_task_queues p) - i)") auto

declare PopTaskFromOtherThreadQueue_from.simps [simp del]

definition PopTaskFromOtherThreadQueue ::
    "'r FunctionWrapper \<Rightarrow> thread_locals \<Rightarrow> 'r ThreadPool
     \<Rightarrow> (bool \<times> 'r FunctionWrapper \<times> 'r ThreadPool) outcome" where
  "PopTaskFromOtherThreadQueue task me p = PopTaskFromOtherThreadQueue_from 0 task me p"

text \<open>
  \<^verbatim>\<open>RunPendingTask\<close>: the three sources are tried left to right by the short-circuit
  \<^verbatim>\<open>||\<close>; the task found is called, otherwise the thread yields.
\<close>

definition run_task :: "'r FunctionWrapper \<Rightarrow> 'r ThreadPool \<Rightarrow> 'r ThreadPool outcome" where
  "run_task task p =
     and_then (FunctionWrapper_call task (shared_states p)) (\<lambda>ss.
     Returns (p\<lparr>shared_states := ss\<rparr>))"

definition yield :: "'r ThreadPool \<Rightarrow> 'r ThreadPool" where
  "yield p = p\<lparr>yields := Suc (yields p)\<rparr>"

definition RunPendingTask :: "thread_locals \<Rightarrow> 'r ThreadPool \<Rightarrow> 'r ThreadPool outcome" where
  "RunPendingTask me p =
     and_then (PopTaskFromLocalQueue None me p) (\<lambda>(b1, t1, p1).
       if b1 then run_task t1 p1
       else and_then (PopTaskFromGlobalQueue t1 p1) (\<lambda>(b2, t2, p2).
         if b2 then run_task t2 p2
         else and_then (PopTaskFromOtherThreadQueue t2 me p2) (\<lambda>(b3, t3, p3).
           if b3 then run_task t3 p3
           else Returns (yield p3))))"

text \<open>
  \<^verbatim>\<open>Worker\<close>, the function that every thread of \<^verbatim>\<open>threads_\<close> runs, cut at its control
  points. A thread has been started with its argument and has run nothing yet
  (\<open>Entered\<close>), or it stands before the loop condition \<^verbatim>\<open>!done_\<close> (\<open>At_condition\<close>), or
  it has found the condition true and stands before the loop body (\<open>In_body\<close>), or its
  \<^verbatim>\<open>Worker\<close> has returned (\<open>Returned\<close>). \<open>Worker_step\<close> takes the thread from one control
  point to the next: the two assignments to the thread-locals, one evaluation of the
  condition, or one run of the body \<^verbatim>\<open>RunPendingTask()\<close>. Other threads may run between two
  steps. \<^verbatim>\<open>done_\<close> is a \<^verbatim>\<open>std::atomic_bool\<close> read and written with the default memory
  order, so that a read returns the value of the last write in the order of the steps.
  An exception that leaves \<^verbatim>\<open>RunPendingTask\<close> leaves the thread function, which ends the
  program.
\<close>

datatype worker = Entered nat | At_condition thread_locals | In_body thread_locals | Returned

definition Worker_step :: "worker \<Rightarrow> 'r ThreadPool \<Rightarrow> (worker \<times> 'r ThreadPool) outcome" where
  "Worker_step w p =
     (case w of
        Entered index \<Rightarrow>
          if index < length (local_task_queues p) then
            Returns (At_condition \<lparr>local_task_queue = Some index, my_index = index\<rparr>, p)
          else Undefined
      | At_condition me \<Rightarrow> Returns (if done p then Returned else In_body me, p)
      | In_body me \<Rightarrow>
          (case RunPendingTask me p of
             Returns p' \<Rightarrow> Returns (At_condition me, p')
           | Throws e \<Rightarrow> Terminates
           | Undefined \<Rightarrow> Undefined
           | Blocks \<Rightarrow> Blocks
           | Terminates \<Rightarrow> Terminates)
      | Returned \<Rightarrow> Returns (Returned, p))"

text \<open>
  The pool together with its threads: \<open>workers s ! i\<close> is the control point of the thread
  \<^verbatim>\<open>threads_[i]\<close>, and \<open>destructor s\<close> is how far the destruction of the pool has come.
  \<open>started p\<close> is the pool \<open>p\<close> with every thread at its start.

  Destruction. \<^verbatim>\<open>~ThreadPool()\<close> sets \<^verbatim>\<open>done_\<close>; then the members are destroyed in
  reverse order of declaration, \<^verbatim>\<open>joiner_\<close> first, and \<^verbatim>\<open>~JoinThreads()\<close> joins every
  joinable thread in index order: \<open>Joining i\<close> stands before the iteration \<open>i\<close> of its
  loop. \<^verbatim>\<open>join()\<close> returns once the thread function has returned, and the thread is no
  longer joinable; until then the destroying thread is parked. (\<^verbatim>\<open>join()\<close> on a thread
  that is not joinable throws \<^verbatim>\<open>std::system_error\<close>.) After the loop the other members are
  destroyed (\<open>Destroyed\<close>).
\<close>

datatype destructor = Not_begun | Joining nat | Destroyed

record 'r system =
  pool :: "'r ThreadPool"
  workers :: "worker list"
  destructor :: destructor

definition started :: "'r ThreadPool \<Rightarrow> 'r system" where
  "started p =
     \<lparr>pool = p,
      workers = map (\<lambda>t. case t of Thread index \<Rightarrow> Entered index | Joined \<Rightarrow> Returned) (threads p),
      destructor = Not_begun\<rparr>"

definition ThreadPool_dtor :: "'r ThreadPool \<Rightarrow> 'r ThreadPool" where
  "ThreadPool_dtor p = p\<lparr>done := True\<rparr>"

definition join :: "nat \<Rightarrow> 'r system \<Rightarrow> 'r system outcome" where
  "join i s =
     (if joinable (threads (pool s) ! i) then
        (if workers s ! i = Returned then
           Returns (s\<lparr>pool := (pool s)\<lparr>threads := (threads (pool s))[i := Joined]\<rparr>\<rparr>)
         else Blocks)
      else Throws system_error)"

definition JoinThreads_dtor_step :: "nat \<Rightarrow> 'r system \<Rightarrow> (destructor \<times> 'r system) outcome" where
  "JoinThreads_dtor_step i s =
     (if i < length (threads (pool s)) then
        (if joinable (threads (pool s) ! i) then
           and_then (join i s) (\<lambda>s'. Returns (Joining (i + 1), s'))
         else Returns (Joining (i + 1), s))
      else Returns (Destroyed, s))"

definition destructor_step :: "'r system \<Rightarrow> 'r system outcome" where
  "destructor_step s =
     (case destructor s of
        Not_begun \<Rightarrow> Returns (s\<lparr>pool := ThreadPool_dtor (pool s), destructor := Joining 0\<rparr>)
      | Joining i \<Rightarrow>
          and_then (JoinThreads_dtor_step i s) (\<lambda>(d, s'). Returns (s'\<lparr>destructor := d\<rparr>))
      | Destroyed \<Rightarrow> Returns s)"

text \<open>
  A schedule lists which thread takes its next step: the worker \<^verbatim>\<open>threads_[i]\<close>, or the
  thread that destroys the pool. The only step that parks its thread is a \<^verbatim>\<open>join()\<close>. It
  changes nothing, and the thread tries it again at its next turn: \<^verbatim>\<open>join()\<close> returns
  whenever the thread function has returned, be it before the call or during it, so that
  no end of a thread can be missed.
\<close>

datatype event = Worker_runs nat | Destructor_runs

definition step :: "event \<Rightarrow> 'r system \<Rightarrow> 'r system outcome" where
  "step e s =
     (case e of
        Worker_runs i \<Rightarrow>
          if i < length (workers s) then
            and_then (Worker_step (workers s ! i) (pool s)) (\<lambda>(w, p).
            Returns (s\<lparr>pool := p, workers := (workers s)[i := w]\<rparr>))
          else Returns s
      | Destructor_runs \<Rightarrow> destructor_step s)"

fun run_schedule :: "event list \<Rightarrow> 'r system \<Rightarrow> 'r system outcome" where
  "run_schedule [] s = Returns s"
| "run_schedule (e # es) s =
     (case step e s of
        Returns s' \<Rightarrow> run_schedule es s'
      | Blocks \<Rightarrow> run_schedule es s
      | Throws x \<Rightarrow> Throws x
      | Undefined \<Rightarrow> Undefined
      | Terminates \<Rightarrow> Terminates)"

text \<open>
  Construction. The constructor takes no argument. Its environment is the value
  \<^verbatim>\<open>std::thread::hardware_concurrency()\<close> returns, the number \<open>mem\<close> of allocations
  available when the member \<^verbatim>\<open>global_task_queue_\<close> is constructed (its constructor
  allocates the first node), and, for the library calls in the two loops, which of them
  fails and with which exception (\<open>faults\<close>): how much a \<^verbatim>\<open>std::deque\<close>, a
  \<^verbatim>\<open>std::vector\<close> or a \<^verbatim>\<open>std::thread\<close> allocates is the library's business, and starting
  a thread can fail with \<^verbatim>\<open>std::system_error\<close>. The calls are
  \<^verbatim>\<open>std::make_unique<WorkStealingQueue>()\<close> and \<^verbatim>\<open>local_task_queues_.push_back\<close> in
  iteration \<open>i\<close> of the first loop, the constructor of \<^verbatim>\<open>std::thread\<close> and
  \<^verbatim>\<open>threads_.push_back\<close> in iteration \<open>i\<close> of the second. When one of them throws, the
  handler sets \<^verbatim>\<open>done_\<close> and rethrows, the threads started so far are joined while the
  members are destroyed, and no pool exists; but an exception of \<^verbatim>\<open>threads_.push_back\<close>
  destroys the temporary \<^verbatim>\<open>std::thread\<close>, which is joinable, and that ends the program.
\<close>

datatype library_call = Make_queue nat | Append_queue nat | Start_thread nat | Append_thread nat

type_synonym faults = "library_call \<Rightarrow> exn option"

definition no_faults :: faults where
  "no_faults = (\<lambda>c. None)"

function push_back_queues ::
    "nat \<Rightarrow> nat \<Rightarrow> faults \<Rightarrow> 'r FunctionWrapper WorkStealingQueue list
     \<Rightarrow> 'r FunctionWrapper WorkStealingQueue list outcome" where
  "push_back_queues i thread_count faults qs =
     (if i < thread_count then
        (case faults (Make_queue i) of
           Some e \<Rightarrow> Throws e
         | None \<Rightarrow>
             (case faults (Append_queue i) of
                Some e \<Rightarrow> Throws e
              | None \<Rightarrow> push_back_queues (i + 1) thread_count faults (qs @ [WorkStealingQueue_new])))
      else Returns qs)"
  by pat_completeness auto
termination
  by (relation "measure (\<lambda>(i, thread_count, faults, qs). thread_count - i)") auto

declare push_back_queues.simps [simp del]

function push_back_threads :: "nat \<Rightarrow> nat \<Rightarrow> faults \<Rightarrow> thread list \<Rightarrow> thread list outcome" where
  "push_back_threads i thread_count faults ts =
     (if i < thread_count then
        (case faults (Start_thread i) of
           Some e \<Rightarrow> Throws e
         | None \<Rightarrow>
             (case faults (Append_thread i) of
                Some e \<Rightarrow> Terminates
              | None \<Rightarrow> push_back_threads (i + 1) thread_count faults (ts @ [Thread i])))
      else Returns ts)"
  by pat_completeness auto
termination
  by (relation "measure (\<lambda>(i, thread_count, faults, ts). thread_count - i)") auto

declare push_back_threads.simps [simp del]

definition ThreadPool_new :: "nat \<Rightarrow> nat \<Rightarrow> faults \<Rightarrow> 'r ThreadPool outcome" where
  "ThreadPool_new hardware_concurrency mem faults =
     and_then (LockedQueue_new mem) (\<lambda>g.
       let thread_count = hardware_concurrency
       in and_then (push_back_queues 0 thread_count faults []) (\<lambda>qs.
          and_then (push_back_threads 0 thread_count faults []) (\<lambda>ts.
          Returns \<lparr>done = False, global_task_queue = g, local_task_queues = qs, threads = ts,
                   shared_states = [], yields = 0\<rparr>)))"

section \<open>The instantiation of Submit\<close>

text \<open>
  \<^verbatim>\<open>Submit\<close> is a member template with the type parameter \<open>F\<close>, the type of the callable.
  What an instantiation declares, and whether its first statement is well formed, is
  decided by type expressions, evaluated here over the C++ types that occur in them:
  \<^verbatim>\<open>int\<close>; a class type, given by its name and by the return type of its
  \<^verbatim>\<open>operator()()\<close> if it has one (the closure type of a lambda without parameters is such
  a class); and the function type \<^verbatim>\<open>R()\<close> of the functions without parameters that
  return \<open>R\<close>.

  \<open>invoke_result_t T\<close> is \<^verbatim>\<open>std::invoke_result_t<T>\<close>, the type of the call of an object of
  type \<open>T\<close> without arguments, if that call is well formed. \<open>Submit_result_t F\<close> is the
  alias \<^verbatim>\<open>result_t\<close> declared by \<^verbatim>\<open>using result_t = std::invoke_result_t<F()>;\<close>, where the
  argument of the trait is the function type \<^verbatim>\<open>F()\<close>; \<^verbatim>\<open>Submit\<close> returns
  \<^verbatim>\<open>std::future<result_t>\<close>. The statement
  \<^verbatim>\<open>std::packaged_task<result_t()> task(std::move(f));\<close> is well formed only if the call
  of \<open>f\<close> without arguments is well formed and its type converts to \<^verbatim>\<open>result_t\<close>; between
  the types here the only conversion is the identity.
\<close>

datatype ctype = Type_int | Type_class string "ctype option" | Type_function ctype

fun invoke_result_t :: "ctype \<Rightarrow> ctype option" where
  "invoke_result_t Type_int = None"
| "invoke_result_t (Type_class name call_operator) = call_operator"
| "invoke_result_t (Type_function R) = Some R"

definition Submit_result_t :: "ctype \<Rightarrow> ctype option" where
  "Submit_result_t F = invoke_result_t (Type_function F)"

definition packaged_task_constructible :: "ctype \<Rightarrow> ctype \<Rightarrow> bool" where
  "packaged_task_constructible R F \<longleftrightarrow> invoke_result_t F = Some R"

definition Submit_well_formed :: "ctype \<Rightarrow> bool" where
  "Submit_well_formed F \<longleftrightarrow>
     (case Submit_result_t F of
        None \<Rightarrow> False
      | Some result_t \<Rightarrow> packaged_task_constructible result_t F)"

section \<open>Reference definitions for the claims about the pool\<close>

text \<open>
  \<open>round_robin_after me n\<close> lists the \<open>n\<close> deque indices in round-robin order, starting
  just after index \<open>me\<close>. \<open>own_deque me p\<close> is the content of the deque the calling
  thread's \<^verbatim>\<open>local_task_queue_\<close> points to, the front first; nothing for a thread whose
  pointer is null.
\<close>

definition round_robin_after :: "nat \<Rightarrow> nat \<Rightarrow> nat list" where
  "round_robin_after me n = map (\<lambda>i. (me + 1 + i) mod n) [0..<n]"

definition own_deque :: "thread_locals \<Rightarrow> 'r ThreadPool \<Rightarrow> 'r FunctionWrapper list" where
  "own_deque me p =
     (case local_task_queue me of None \<Rightarrow> [] | Some k \<Rightarrow> q (local_task_queues p ! k))"

text \<open>
  \<open>idle me p\<close>: the pool has no task anywhere (and is well formed for the caller \<open>me\<close>).
\<close>

definition idle :: "thread_locals \<Rightarrow> 'r ThreadPool \<Rightarrow> bool" where
  "idle me p \<longleftrightarrow>
     LockedQueue_holds (global_task_queue p) [] \<and>
     (\<forall>k. local_task_queue me = Some k \<longrightarrow> k < length (local_task_queues p)) \<and>
     my_index me + length (local_task_queues p) < 2 ^ 32 \<and>
     (\<forall>w \<in> set (local_task_queues p). q w = [])"

text \<open>
  \<open>steps_to_return w\<close> bounds the steps a worker at the control point \<open>w\<close> takes until it
  has returned, once \<^verbatim>\<open>done_\<close> is set. \<open>attached w p\<close>: the thread-locals of a worker at
  \<open>w\<close> name its own deque, which is a deque of \<open>p\<close>. \<open>calm s\<close>: the pool of \<open>s\<close> holds no
  task, its global queue is well formed, every worker is attached, and the indices do not
  wrap around. \<open>shutting_down s\<close>: \<^verbatim>\<open>done_\<close> is set, there is one control point per thread,
  and the threads that the loop of \<^verbatim>\<open>~JoinThreads()\<close> has passed are joined.
\<close>

fun steps_to_return :: "worker \<Rightarrow> nat" where
  "steps_to_return (Entered index) = 2"
| "steps_to_return (At_condition me) = 1"
| "steps_to_return (In_body me) = 2"
| "steps_to_return Returned = 0"

definition attached :: "worker \<Rightarrow> 'r ThreadPool \<Rightarrow> bool" where
  "attached w p \<longleftrightarrow>
     (case w of
        Entered index \<Rightarrow> index < length (local_task_queues p)
      | At_condition me \<Rightarrow>
          my_index me < length (local_task_queues p) \<and> local_task_queue me = Some (my_index me)
      | In_body me \<Rightarrow>
          my_index me < length (local_task_queues p) \<and> local_task_queue me = Some (my_index me)
      | Returned \<Rightarrow> True)"

definition calm :: "'r system \<Rightarrow> bool" where
  "calm s \<longleftrightarrow>
     LockedQueue_holds (global_task_queue (pool s)) [] \<and>
     list_all (\<lambda>w. q w = []) (local_task_queues (pool s)) \<and>
     2 * length (local_task_queues (pool s)) \<le> 2 ^ 32 \<and>
     list_all (\<lambda>w. attached w (pool s)) (workers s)"


definition shutting_down :: "'r system \<Rightarrow> bool" where
  "shutting_down s \<longleftrightarrow>
     done (pool s) \<and> length (workers s) = length (threads (pool s)) \<and>
     (case destructor s of
        Not_begun \<Rightarrow> False
      | Joining i \<Rightarrow>
          i \<le> length (threads (pool s)) \<and> (\<forall>k<i. threads (pool s) ! k = Joined)
      | Destroyed \<Rightarrow> (\<forall>k<length (threads (pool s)). threads (pool s) ! k = Joined))"


text \<open>
  For comparison with the constructor: the number of workers that a pool "accepting an
  optional override of the worker count" starts on a host whose hardware concurrency is
  \<open>hc\<close>. The source has no such argument.
\<close>

definition worker_count_with_override :: "nat option \<Rightarrow> nat \<Rightarrow> nat" where
  "worker_count_with_override override hardware_concurrency =
     (case override of None \<Rightarrow> hardware_concurrency | Some n \<Rightarrow> n)"

section \<open>Properties of WorkStealingQueue\<close>

lemmas container_defs =
  front_def deque_pop_front_def deque_back_def deque_pop_back_def deque_push_front_def push_def pop_def deref_def

text \<open>
  C4. The owner pushes A, B, C in that order into a new deque and pops nothing in between.
  The three pushes return, unless the deque cannot allocate what it asks for (the Push
  concerned then throws \<^verbatim>\<open>std::bad_alloc\<close>), and the deque holds C, B, A, seen from the
  owner's end. Then three owner TryPop calls return C, then B, then A (each with \<open>true\<close>),
  and the deque is empty afterwards; a TrySteal made instead of the first TryPop returns
  A, the oldest item, and leaves C and B (C still at the owner's end).
\<close>

theorem WorkStealingQueue_lifo_pop_fifo_steal:
  "and_then (WorkStealingQueue_Push m1 n1 A WorkStealingQueue_new) (\<lambda>w1.
   and_then (WorkStealingQueue_Push m2 n2 B w1) (\<lambda>w2.
   WorkStealingQueue_Push m3 n3 C w2))
     = (if n1 \<le> m1 \<and> n2 \<le> m2 \<and> n3 \<le> m3 then Returns \<lparr>q = [C, B, A]\<rparr>
        else Throws bad_alloc)
   \<and> WorkStealingQueue_TryPop v1 \<lparr>q = [C, B, A]\<rparr> = Returns (True, C, \<lparr>q = [B, A]\<rparr>)
   \<and> WorkStealingQueue_TryPop v2 \<lparr>q = [B, A]\<rparr> = Returns (True, B, \<lparr>q = [A]\<rparr>)
   \<and> WorkStealingQueue_TryPop v3 \<lparr>q = [A]\<rparr> = Returns (True, A, WorkStealingQueue_new)
   \<and> WorkStealingQueue_TrySteal v1 \<lparr>q = [C, B, A]\<rparr> = Returns (True, A, \<lparr>q = [C, B]\<rparr>)"
  by (simp add: WorkStealingQueue_Push_def WorkStealingQueue_new_def
      WorkStealingQueue_TryPop_def WorkStealingQueue_TrySteal_def container_defs)

section \<open>Properties of LockedQueue\<close>

lemma path_append:
  "path h p (as @ bs) r \<longleftrightarrow> (\<exists>m. path h p as m \<and> path h m bs r)"
  by (induction as arbitrary: p) (auto split: option.splits)

lemma path_unique: "path h p as None \<Longrightarrow> path h p bs None \<Longrightarrow> as = bs"
proof (induction as arbitrary: p bs)
  case Nil
  then show ?case by (cases bs) auto
next
  case (Cons a as)
  then show ?case by (cases bs) (auto split: option.splits)
qed

lemma path_head_notin:
  assumes "path h (Some a) (a # as) None"
  shows "a \<notin> set as"
proof
  assume "a \<in> set as"
  then obtain xs ys where as: "as = xs @ a # ys"
    by (auto simp: in_set_conv_decomp)
  from assms obtain nd where nd: "h ! a = Some nd" and rest: "path h (nxt nd) as None"
    by (auto split: option.splits)
  from rest as obtain m where "path h m (a # ys) None"
    by (auto simp: path_append)
  with nd have "path h (nxt nd) ys None"
    by (auto split: option.splits)
  with rest have "as = ys" by (rule path_unique)
  with as show False by simp
qed

lemma path_distinct: "path h p as None \<Longrightarrow> distinct as"
proof (induction as arbitrary: p)
  case Nil
  then show ?case by simp
next
  case (Cons a as)
  then have "p = Some a" by simp
  with Cons.prems have "path h (Some a) (a # as) None" by simp
  then have "a \<notin> set as" by (rule path_head_notin)
  moreover from Cons have "distinct as" by (auto split: option.splits)
  ultimately show ?case by simp
qed

lemma path_bound: "path h p as r \<Longrightarrow> \<forall>a\<in>set as. a < length h"
  by (induction as arbitrary: p) (auto split: option.splits)

lemma path_update: "a \<notin> set as \<Longrightarrow> path (h[a := c]) p as r = path h p as r"
  by (induction as arbitrary: p) (auto split: option.splits)

lemma path_extend: "path h p as r \<Longrightarrow> path (h @ [c]) p as r"
  by (induction as arbitrary: p) (auto split: option.splits simp: nth_append)


lemma repr_nonempty:
  assumes "LockedQueue_repr lq (a # as) t (v # vs)"
  shows "\<exists>nd. store lq ! a = Some nd \<and> a < length (store lq) \<and> head lq = Some a \<and>
           data nd = Some v \<and> head lq \<noteq> tail lq \<and>
           LockedQueue_repr (lq\<lparr>store := (store lq)[a := None], head := nxt nd\<rparr>) as t vs"
proof -
  let ?h = "store lq"
  from assms have p: "path ?h (head lq) (a # as @ [t]) None" and tl: "tail lq = Some t"
    and pl: "map (payload ?h) (a # as) = map Some (v # vs)"
    by (simp_all add: LockedQueue_repr_def)
  from p obtain nd where hd: "head lq = Some a" and a: "a < length ?h" and nd: "?h ! a = Some nd"
    and rest: "path ?h (nxt nd) (as @ [t]) None"
    by (auto split: option.splits)
  from p have "distinct (a # as @ [t])" by (rule path_distinct)
  then have notin: "a \<notin> set (as @ [t])" and "a \<noteq> t" by auto
  from pl nd have d: "data nd = Some v" by (simp add: payload_def)
  from rest notin have rest': "path (?h[a := None]) (nxt nd) (as @ [t]) None"
    by (simp add: path_update)
  have "payload (?h[a := None]) b = payload ?h b" if "b \<in> set as" for b
  proof -
    from that notin have "a \<noteq> b" by auto
    then show ?thesis by (simp add: payload_def)
  qed
  then have "map (payload (?h[a := None])) as = map (payload ?h) as" by simp
  with pl have "map (payload (?h[a := None])) as = map Some vs" by simp
  with rest' tl have "LockedQueue_repr (lq\<lparr>store := ?h[a := None], head := nxt nd\<rparr>) as t vs"
    by (simp add: LockedQueue_repr_def)
  with nd a hd d tl \<open>a \<noteq> t\<close> show ?thesis by auto
qed

lemma repr_empty:
  assumes "LockedQueue_repr lq [] t []"
  shows "head lq = Some t \<and> tail lq = Some t"
  using assms by (auto simp: LockedQueue_repr_def split: option.splits)

lemma repr_lengths: "LockedQueue_repr lq as t vs \<Longrightarrow> length as = length vs"
  by (auto simp: LockedQueue_repr_def dest: map_eq_imp_length_eq)

lemma PopHead_nonempty:
  assumes "store lq ! a = Some nd" "a < length (store lq)" "head lq = Some a"
  shows "PopHead lq = Returns (Some a,
           lq\<lparr>store := (store lq)[a := Some (nd\<lparr>nxt := None\<rparr>)], head := nxt nd\<rparr>)"
  using assms by (simp add: PopHead_def load_def)

lemma LockedQueue_TryPop_nonempty:
  assumes "LockedQueue_repr lq (a # as) t (v # vs)"
  shows "\<exists>lq'. LockedQueue_TryPop lq = Returns (Some v, lq') \<and> LockedQueue_repr lq' as t vs"
proof -
  from repr_nonempty [OF assms] obtain nd where
    f: "store lq ! a = Some nd" "a < length (store lq)" "head lq = Some a" "data nd = Some v"
      "head lq \<noteq> tail lq"
    and r: "LockedQueue_repr (lq\<lparr>store := (store lq)[a := None], head := nxt nd\<rparr>) as t vs"
    by blast
  from f have "LockedQueue_TryPop lq =
      Returns (Some v, lq\<lparr>store := (store lq)[a := None], head := nxt nd\<rparr>)"
    by (simp add: LockedQueue_TryPop_def TryPopHead_def GetTail_def PopHead_nonempty load_def)
  with r show ?thesis by blast
qed


lemma LockedQueue_WaitAndPop_nonempty:
  assumes "LockedQueue_repr lq (a # as) t (v # vs)"
  shows "\<exists>lq'. LockedQueue_WaitAndPop lq = Returns (Some v, lq') \<and> LockedQueue_repr lq' as t vs"
proof -
  from repr_nonempty [OF assms] obtain nd where
    f: "store lq ! a = Some nd" "a < length (store lq)" "head lq = Some a" "data nd = Some v"
      "head lq \<noteq> tail lq"
    and r: "LockedQueue_repr (lq\<lparr>store := (store lq)[a := None], head := nxt nd\<rparr>) as t vs"
    by blast
  from f have "LockedQueue_WaitAndPop lq =
      Returns (Some v, lq\<lparr>store := (store lq)[a := None], head := nxt nd\<rparr>)"
    by (simp add: LockedQueue_WaitAndPop_def WaitPopHead_def WaitForData_def GetTail_def
        PopHead_nonempty load_def)
  with r show ?thesis by blast
qed

lemma LockedQueue_TryPop_out_nonempty:
  assumes "LockedQueue_repr lq (a # as) t (v # vs)"
  shows "\<exists>lq'. LockedQueue_TryPop_out val lq = Returns (True, v, lq') \<and>
           LockedQueue_repr lq' as t vs"
proof -
  from repr_nonempty [OF assms] obtain nd where
    f: "store lq ! a = Some nd" "a < length (store lq)" "head lq = Some a" "data nd = Some v"
      "head lq \<noteq> tail lq"
    and r: "LockedQueue_repr (lq\<lparr>store := (store lq)[a := None], head := nxt nd\<rparr>) as t vs"
    by blast
  from f have "LockedQueue_TryPop_out val lq =
      Returns (True, v, lq\<lparr>store := (store lq)[a := None], head := nxt nd\<rparr>)"
    by (simp add: LockedQueue_TryPop_out_def TryPopHead_out_def GetTail_def
        PopHead_nonempty load_def deref_def)
  with r show ?thesis by blast
qed

lemma LockedQueue_WaitAndPop_out_nonempty:
  assumes "LockedQueue_repr lq (a # as) t (v # vs)"
  shows "\<exists>lq'. LockedQueue_WaitAndPop_out val lq = Returns (v, lq') \<and>
           LockedQueue_repr lq' as t vs"
proof -
  from repr_nonempty [OF assms] obtain nd where
    f: "store lq ! a = Some nd" "a < length (store lq)" "head lq = Some a" "data nd = Some v"
      "head lq \<noteq> tail lq"
    and r: "LockedQueue_repr (lq\<lparr>store := (store lq)[a := None], head := nxt nd\<rparr>) as t vs"
    by blast
  from f have "LockedQueue_WaitAndPop_out val lq =
      Returns (v, lq\<lparr>store := (store lq)[a := None], head := nxt nd\<rparr>)"
    by (simp add: LockedQueue_WaitAndPop_out_def WaitPopHead_out_def WaitForData_def GetTail_def
        PopHead_nonempty load_def deref_def)
  with r show ?thesis by blast
qed

lemma LockedQueue_pops_empty:
  assumes "LockedQueue_repr lq [] t []"
  shows "LockedQueue_TryPop lq = Returns (None, lq)"
    and "LockedQueue_TryPop_out val lq = Returns (False, val, lq)"
    and "LockedQueue_WaitAndPop lq = Blocks"
    and "LockedQueue_WaitAndPop_out val lq = Blocks"
  using repr_empty [OF assms]
  by (simp_all add: LockedQueue_TryPop_def TryPopHead_def LockedQueue_TryPop_out_def
      TryPopHead_out_def LockedQueue_WaitAndPop_def WaitPopHead_def WaitForData_def
      LockedQueue_WaitAndPop_out_def WaitPopHead_out_def GetTail_def)

lemma LockedQueue_Push_throws:
  "mem < 2 \<Longrightarrow> LockedQueue_Push mem v lq = Throws bad_alloc"
  by (cases "mem = 0") (simp_all add: LockedQueue_Push_def make_shared_def new_Node_def)

lemma LockedQueue_Push_repr:
  assumes "LockedQueue_repr lq as t vs" and "2 \<le> mem"
  shows "\<exists>lq'. LockedQueue_Push mem v lq = Returns lq' \<and>
           LockedQueue_repr lq' (as @ [t]) (length (store lq)) (vs @ [v])"
proof -
  let ?h = "store lq" and ?p = "length (store lq)"
  let ?new = "\<lparr>data = None, nxt = None\<rparr> :: 'a Node"
  from assms have p: "path ?h (head lq) (as @ [t]) None" and tl: "tail lq = Some t"
    and pl: "map (payload ?h) as = map Some vs"
    by (simp_all add: LockedQueue_repr_def)
  from p obtain m where pas: "path ?h (head lq) as m" and pt: "path ?h m [t] None"
    by (auto simp: path_append)
  from pt obtain nd where m: "m = Some t" and t: "t < ?p" and nd: "?h ! t = Some nd"
    and nx: "nxt nd = None"
    by (auto split: option.splits)
  from p have "distinct (as @ [t])" by (rule path_distinct)
  then have tnotin: "t \<notin> set as" by simp
  from pas have bound: "\<forall>a\<in>set as. a < ?p" by (rule path_bound)
  let ?h' = "(?h @ [Some ?new])[t := Some (nd\<lparr>data := Some v, nxt := Some ?p\<rparr>)]"
  let ?lq' = "lq\<lparr>store := ?h', tail := Some ?p\<rparr>"
  from assms(2) have two: "mem \<noteq> 0" "mem - Suc 0 \<noteq> 0" by simp_all
  from t nd nx tl two have push: "LockedQueue_Push mem v lq = Returns ?lq'"
    by (simp add: LockedQueue_Push_def make_shared_def new_Node_def load_def nth_append)
  from pas have "path (?h @ [Some ?new]) (head lq) as m" by (rule path_extend)
  with tnotin have 1: "path ?h' (head lq) as (Some t)"
    by (simp add: path_update m)
  from t have 2: "path ?h' (Some t) [t, ?p] None"
    by (simp add: nth_append)
  from 1 2 have path': "path ?h' (head lq) ((as @ [t]) @ [?p]) None"
    by (auto simp: path_append)
  have "payload ?h' a = payload ?h a" if "a \<in> set as" for a
  proof -
    from that tnotin bound have "a \<noteq> t" "a < ?p" by auto
    then show ?thesis by (simp add: payload_def nth_append)
  qed
  then have "map (payload ?h') as = map (payload ?h) as" by simp
  moreover from t have "payload ?h' t = Some v" by (simp add: payload_def)
  ultimately have "map (payload ?h') (as @ [t]) = map Some (vs @ [v])"
    using pl by simp
  with path' have "LockedQueue_repr ?lq' (as @ [t]) ?p (vs @ [v])"
    by (simp add: LockedQueue_repr_def)
  with push show ?thesis by blast
qed

subsection \<open>A pop overlapping a Push\<close>

text \<open>
  The sequences of calls below take every member function as one step. For \<^verbatim>\<open>Push\<close>
  against a pop this needs an argument, since the two hold different mutexes. A pop
  that read \<^verbatim>\<open>tail_\<close> before a \<^verbatim>\<open>Push\<close> and went on after it leaves the same result and
  the same queue as the whole pop followed by the \<^verbatim>\<open>Push\<close>.
\<close>

lemma TryPopHead_at_GetTail: "TryPopHead lq = TryPopHead_at (GetTail lq) lq"
  by (simp add: TryPopHead_def TryPopHead_at_def)

lemma LockedQueue_Push_explicit:
  assumes "LockedQueue_repr lq as t vs" and "2 \<le> mem"
  shows "\<exists>nd. store lq ! t = Some nd \<and> t < length (store lq) \<and> nxt nd = None \<and>
     LockedQueue_Push mem v lq =
       Returns (lq\<lparr>store := (store lq @ [Some \<lparr>data = None, nxt = None\<rparr>])
                         [t := Some (nd\<lparr>data := Some v, nxt := Some (length (store lq))\<rparr>)],
                  tail := Some (length (store lq))\<rparr>)"
proof -
  from assms have p: "path (store lq) (head lq) (as @ [t]) None" and tl: "tail lq = Some t"
    by (simp_all add: LockedQueue_repr_def)
  from p obtain m where "path (store lq) m [t] None" by (auto simp: path_append)
  then obtain nd where t: "t < length (store lq)" and nd: "store lq ! t = Some nd"
    and nx: "nxt nd = None"
    by (auto split: option.splits)
  from assms(2) have "mem \<noteq> 0" "mem - Suc 0 \<noteq> 0" by simp_all
  with t nd nx tl show ?thesis
    by (simp add: LockedQueue_Push_def make_shared_def new_Node_def load_def nth_append)
qed

lemma TryPopHead_at_earlier_tail:
  assumes r: "LockedQueue_repr lq as t vs" and mem: "2 \<le> mem"
  shows "and_then (LockedQueue_Push mem v lq) (TryPopHead_at (GetTail lq)) =
         and_then (TryPopHead lq) (\<lambda>(old_head, lq').
         and_then (LockedQueue_Push mem v lq') (\<lambda>lq''.
         Returns (old_head, lq'')))"
proof -
  let ?h = "store lq" and ?new = "Some \<lparr>data = None, nxt = None\<rparr> :: 'a Node option"
  from LockedQueue_Push_explicit [OF r mem, of v] obtain nd where
    t: "t < length ?h" and nd: "?h ! t = Some nd" and nx: "nxt nd = None"
    and push: "LockedQueue_Push mem v lq =
       Returns (lq\<lparr>store := (?h @ [?new])[t := Some (nd\<lparr>data := Some v, nxt := Some (length ?h)\<rparr>)],
                  tail := Some (length ?h)\<rparr>)"
    by blast
  from r have tl: "tail lq = Some t" by (simp add: LockedQueue_repr_def)
  show ?thesis
  proof (cases as)
    case Nil
    with r repr_lengths [OF r] have "head lq = Some t"
      by (auto dest: repr_empty)
    with push tl show ?thesis
      by (simp add: TryPopHead_at_def TryPopHead_def GetTail_def)
  next
    case (Cons a as')
    with repr_lengths [OF r] obtain v0 vs' where vs: "vs = v0 # vs'" by (cases vs) auto
    from r Cons vs have r': "LockedQueue_repr lq (a # as') t (v0 # vs')" by simp
    from repr_nonempty [OF r'] obtain nda where
      a: "?h ! a = Some nda" "a < length ?h" "head lq = Some a" "head lq \<noteq> tail lq"
      by blast
    from a(3,4) tl have at: "a \<noteq> t" by auto
    let ?lq' = "lq\<lparr>store := ?h[a := Some (nda\<lparr>nxt := None\<rparr>)], head := nxt nda\<rparr>"
    from a have pop: "TryPopHead lq = Returns (Some a, ?lq')"
      by (simp add: TryPopHead_def GetTail_def PopHead_nonempty)
    from mem have m: "mem \<noteq> 0" "mem - Suc 0 \<noteq> 0" by simp_all
    from t nd nx tl at m have push': "LockedQueue_Push mem v ?lq' =
        Returns (?lq'\<lparr>store := (?h[a := Some (nda\<lparr>nxt := None\<rparr>)] @ [?new])
                         [t := Some (nd\<lparr>data := Some v, nxt := Some (length ?h)\<rparr>)],
                  tail := Some (length ?h)\<rparr>)"
      by (simp add: LockedQueue_Push_def make_shared_def new_Node_def load_def nth_append)
    from a at t have lhs: "and_then (LockedQueue_Push mem v lq) (TryPopHead_at (GetTail lq)) =
        Returns (Some a,
          lq\<lparr>store := ((?h @ [?new])[t := Some (nd\<lparr>data := Some v, nxt := Some (length ?h)\<rparr>)])
                     [a := Some (nda\<lparr>nxt := None\<rparr>)],
             tail := Some (length ?h), head := nxt nda\<rparr>)"
      by (simp add: push tl GetTail_def TryPopHead_at_def PopHead_def load_def nth_append)
    from a at have "((?h @ [?new])[t := Some (nd\<lparr>data := Some v, nxt := Some (length ?h)\<rparr>)])
                     [a := Some (nda\<lparr>nxt := None\<rparr>)] =
        (?h[a := Some (nda\<lparr>nxt := None\<rparr>)] @ [?new])
                         [t := Some (nd\<lparr>data := Some v, nxt := Some (length ?h)\<rparr>)]"
      by (simp add: list_update_append list_update_swap [of a t])
    with lhs pop push' show ?thesis by simp
  qed
qed

subsection \<open>A Push between the test and the wait\<close>

text \<open>
  A caller of \<^verbatim>\<open>WaitAndPop()\<close> finds a new queue empty. Before it is parked, a \<^verbatim>\<open>Push\<close> of
  another thread stores a value and notifies: nobody is parked yet, so nobody is woken.
  Then the caller parks, and stays parked with the value in the queue until something
  wakes it. This is why no statement below lets a parked caller return.
\<close>

lemma LockedQueue_notification_can_be_lost:
  "waiter_step Testing
       \<lparr>store = [Some \<lparr>data = None, nxt = None\<rparr>], head = Some 0, tail = Some 0\<rparr>
     = Returns (Parking :: nat waiter,
         \<lparr>store = [Some \<lparr>data = None, nxt = None\<rparr>], head = Some 0, tail = Some 0\<rparr>)
   \<and> LockedQueue_Push 2 (7::nat)
       \<lparr>store = [Some \<lparr>data = None, nxt = None\<rparr>], head = Some 0, tail = Some 0\<rparr>
     = Returns \<lparr>store = [Some \<lparr>data = Some 7, nxt = Some 1\<rparr>, Some \<lparr>data = None, nxt = None\<rparr>],
                head = Some 0, tail = Some 1\<rparr>
   \<and> notify_one [Parking :: nat waiter] = [Parking]
   \<and> waiter_step Parking
       \<lparr>store = [Some \<lparr>data = Some (7::nat), nxt = Some 1\<rparr>, Some \<lparr>data = None, nxt = None\<rparr>],
        head = Some 0, tail = Some 1\<rparr>
     = Returns (Parked,
         \<lparr>store = [Some \<lparr>data = Some 7, nxt = Some 1\<rparr>, Some \<lparr>data = None, nxt = None\<rparr>],
          head = Some 0, tail = Some 1\<rparr>)
   \<and> \<not> LockedQueue_Empty
       \<lparr>store = [Some \<lparr>data = Some (7::nat), nxt = Some 1\<rparr>, Some \<lparr>data = None, nxt = None\<rparr>],
        head = Some 0, tail = Some 1\<rparr>
   \<and> waiter_step Parked
       \<lparr>store = [Some \<lparr>data = Some (7::nat), nxt = Some 1\<rparr>, Some \<lparr>data = None, nxt = None\<rparr>],
        head = Some 0, tail = Some 1\<rparr>
     = Returns (Parked,
         \<lparr>store = [Some \<lparr>data = Some 7, nxt = Some 1\<rparr>, Some \<lparr>data = None, nxt = None\<rparr>],
          head = Some 0, tail = Some 1\<rparr>)"
  by (simp add: waiter_step_def GetTail_def LockedQueue_Empty_def LockedQueue_Push_def
      make_shared_def new_Node_def load_def)

section \<open>The queues against the first-in first-out contract\<close>

lemma serve_contract:
  assumes I: "fifo_contract I R" and R: "R s vs" and log: "pushed = received @ vs"
  shows "\<exists>s' pushed' received' vs'.
           serve I c (s, pushed, received) = Some (s', pushed', received') \<and>
           R s' vs' \<and> pushed' = received' @ vs'"
proof (cases c)
  case (Call_Push mem need v)
  from I R have "(\<exists>s'. iPush I mem need v s = Returns s' \<and> R s' (vs @ [v])) \<or>
      iPush I mem need v s = Throws bad_alloc"
    unfolding fifo_contract_def by blast
  with Call_Push R log show ?thesis
    by (auto simp: settle_def)
next
  case Call_TryPop
  show ?thesis
  proof (cases vs)
    case Nil
    with I R have "iTryPop I s = Returns (None, s)"
      unfolding fifo_contract_def by blast
    with Call_TryPop R log show ?thesis by (auto simp: settle_def pointee_def)
  next
    case (Cons v ws)
    with I R obtain s' where "iTryPop I s = Returns (Some v, s')" "R s' ws"
      unfolding fifo_contract_def by blast
    with Call_TryPop Cons log show ?thesis by (auto simp: settle_def pointee_def)
  qed
next
  case (Call_TryPop_out val)
  show ?thesis
  proof (cases vs)
    case Nil
    with I R have "iTryPop_out I val s = Returns (False, val, s)"
      unfolding fifo_contract_def by blast
    with Call_TryPop_out R log show ?thesis by (auto simp: settle_def)
  next
    case (Cons v ws)
    with I R obtain s' where "iTryPop_out I val s = Returns (True, v, s')" "R s' ws"
      unfolding fifo_contract_def by blast
    with Call_TryPop_out Cons log show ?thesis by (auto simp: settle_def)
  qed
next
  case Call_WaitAndPop
  show ?thesis
  proof (cases vs)
    case Nil
    with I R have "iWaitAndPop I s = Blocks"
      unfolding fifo_contract_def by blast
    with Call_WaitAndPop R log show ?thesis by (auto simp: settle_def)
  next
    case (Cons v ws)
    with I R obtain s' where "iWaitAndPop I s = Returns (Some v, s')" "R s' ws"
      unfolding fifo_contract_def by blast
    with Call_WaitAndPop Cons log show ?thesis by (auto simp: settle_def pointee_def)
  qed
next
  case (Call_WaitAndPop_out val)
  show ?thesis
  proof (cases vs)
    case Nil
    with I R have "iWaitAndPop_out I val s = Blocks"
      unfolding fifo_contract_def by blast
    with Call_WaitAndPop_out R log show ?thesis by (auto simp: settle_def)
  next
    case (Cons v ws)
    with I R obtain s' where "iWaitAndPop_out I val s = Returns (v, s')" "R s' ws"
      unfolding fifo_contract_def by blast
    with Call_WaitAndPop_out Cons log show ?thesis by (auto simp: settle_def)
  qed
next
  case Call_Empty
  with R log show ?thesis by auto
qed

lemma run_contract:
  assumes I: "fifo_contract I R"
  shows "R s vs \<Longrightarrow> pushed = received @ vs \<Longrightarrow>
         \<exists>s' pushed' received' vs'.
           run I cs (s, pushed, received) = Some (s', pushed', received') \<and>
           R s' vs' \<and> pushed' = received' @ vs'"
proof (induction cs arbitrary: s vs pushed received)
  case Nil
  then show ?case by auto
next
  case (Cons c cs)
  from serve_contract [OF I Cons.prems] obtain s1 p1 r1 vs1 where
    1: "serve I c (s, pushed, received) = Some (s1, p1, r1)" and "R s1 vs1" "p1 = r1 @ vs1"
    by blast
  from Cons.IH [OF this(2,3)] 1 show ?case by simp
qed

lemma LockedQueue_contract: "fifo_contract LockedQueue_interface LockedQueue_holds"
  unfolding fifo_contract_def
proof (intro conjI allI impI)
  fix lq :: "'a LockedQueue" and vs mem need v
  assume "LockedQueue_holds lq vs"
  then obtain as t where r: "LockedQueue_repr lq as t vs"
    by (auto simp: LockedQueue_holds_def)
  show "(\<exists>s'. iPush LockedQueue_interface mem need v lq = Returns s' \<and>
          LockedQueue_holds s' (vs @ [v]))
      \<or> iPush LockedQueue_interface mem need v lq = Throws bad_alloc"
  proof (cases "2 \<le> mem")
    case True
    from LockedQueue_Push_repr [OF r True, of v] show ?thesis
      unfolding LockedQueue_interface_def LockedQueue_holds_def by fastforce
  next
    case False
    then show ?thesis
      by (simp add: LockedQueue_interface_def LockedQueue_Push_throws)
  qed
next
  fix lq :: "'a LockedQueue" and v vs
  assume "LockedQueue_holds lq (v # vs)"
  then obtain as0 t where r0: "LockedQueue_repr lq as0 t (v # vs)"
    by (auto simp: LockedQueue_holds_def)
  from repr_lengths [OF r0] obtain a as where "as0 = a # as" by (cases as0) auto
  with r0 have r: "LockedQueue_repr lq (a # as) t (v # vs)" by simp
  from LockedQueue_TryPop_nonempty [OF r]
  show "\<exists>s'. iTryPop LockedQueue_interface lq = Returns (Some v, s') \<and> LockedQueue_holds s' vs"
    by (auto simp: LockedQueue_interface_def LockedQueue_holds_def)
  from LockedQueue_WaitAndPop_nonempty [OF r]
  show "\<exists>s'. iWaitAndPop LockedQueue_interface lq = Returns (Some v, s') \<and>
      LockedQueue_holds s' vs"
    by (auto simp: LockedQueue_interface_def LockedQueue_holds_def)
  fix val
  from LockedQueue_TryPop_out_nonempty [OF r, of val]
  show "\<exists>s'. iTryPop_out LockedQueue_interface val lq = Returns (True, v, s') \<and>
      LockedQueue_holds s' vs"
    by (auto simp: LockedQueue_interface_def LockedQueue_holds_def)
  from LockedQueue_WaitAndPop_out_nonempty [OF r, of val]
  show "\<exists>s'. iWaitAndPop_out LockedQueue_interface val lq = Returns (v, s') \<and>
      LockedQueue_holds s' vs"
    by (auto simp: LockedQueue_interface_def LockedQueue_holds_def)
next
  fix lq :: "'a LockedQueue"
  assume "LockedQueue_holds lq []"
  then obtain as t where "LockedQueue_repr lq as t []"
    by (auto simp: LockedQueue_holds_def)
  with repr_lengths [OF this] have r: "LockedQueue_repr lq [] t []" by simp
  note e = LockedQueue_pops_empty [OF r]
  show "iTryPop LockedQueue_interface lq = Returns (None, lq)"
    by (simp add: LockedQueue_interface_def e)
  show "iWaitAndPop LockedQueue_interface lq = Blocks"
    by (simp add: LockedQueue_interface_def e)
  fix val
  show "iTryPop_out LockedQueue_interface val lq = Returns (False, val, lq)"
    by (simp add: LockedQueue_interface_def e)
  show "iWaitAndPop_out LockedQueue_interface val lq = Blocks"
    by (simp add: LockedQueue_interface_def e)
qed

lemma ThreadSafeQueue_contract: "fifo_contract ThreadSafeQueue_interface ThreadSafeQueue_repr"
  unfolding fifo_contract_def ThreadSafeQueue_interface_def ThreadSafeQueue_repr_def
  by (auto simp: ThreadSafeQueue_Push_def ThreadSafeQueue_TryPop_def
      ThreadSafeQueue_TryPop_out_def ThreadSafeQueue_WaitAndPop_def
      ThreadSafeQueue_WaitAndPop_out_def make_shared_def container_defs)

lemma SimpleLockedQueue_contract:
  "fifo_contract SimpleLockedQueue_interface ThreadSafeQueue_repr"
  unfolding fifo_contract_def SimpleLockedQueue_interface_def ThreadSafeQueue_repr_def
  by (auto simp: SimpleLockedQueue_Push_def SimpleLockedQueue_TryPop_def
      SimpleLockedQueue_TryPop_out_def SimpleLockedQueue_WaitAndPop_def
      SimpleLockedQueue_WaitAndPop_out_def make_shared_def container_defs)


lemma repeat_TryPop_idle:
  "f s = Returns (None, s) \<Longrightarrow> repeat_TryPop n f s = Returns (replicate n None, s)"
  by (induction n) simp_all

lemma repeat_TryPop_out_idle:
  "f val s = Returns (False, val, s) \<Longrightarrow>
   repeat_TryPop_out n f val s = Returns (replicate n False, val, s)"
  by (induction n) simp_all



lemma next_pop_contract:
  assumes I: "fifo_contract I R" and R: "R s vs" and log: "pushed = received @ vs"
    and more: "length received < length pushed"
  shows "(\<exists>s'. iWaitAndPop I s = Returns (Some (pushed ! length received), s')) \<and>
         (\<exists>s'. iTryPop I s = Returns (Some (pushed ! length received), s'))"
proof -
  from log more obtain v ws where vs: "vs = v # ws" by (cases vs) auto
  with log have "pushed ! length received = v" by simp
  moreover from I R vs have "(\<exists>s'. iWaitAndPop I s = Returns (Some v, s')) \<and>
      (\<exists>s'. iTryPop I s = Returns (Some v, s'))"
    unfolding fifo_contract_def by blast
  ultimately show ?thesis by simp
qed

lemma LockedQueue_new_holds:
  "LockedQueue_new (Suc m) =
     Returns \<lparr>store = [Some \<lparr>data = None, nxt = None\<rparr>], head = Some 0, tail = Some 0\<rparr>"
  "LockedQueue_holds \<lparr>store = [Some \<lparr>data = None, nxt = None\<rparr>], head = Some 0, tail = Some 0\<rparr> []"
  by (simp_all add: LockedQueue_new_def new_Node_def LockedQueue_holds_def LockedQueue_repr_def)

lemma ThreadSafeQueue_new_repr:
  "ThreadSafeQueue_repr ThreadSafeQueue_new []"
  "ThreadSafeQueue_repr SimpleLockedQueue_new []"
  by (simp_all add: ThreadSafeQueue_repr_def ThreadSafeQueue_new_def SimpleLockedQueue_new_def)


lemma holds_shape:
  assumes "LockedQueue_holds lq vs"
  shows "\<exists>as. as \<noteq> [] \<and> path (store lq) (head lq) as None \<and> tail lq = Some (last as) \<and>
           head lq = Some (hd as) \<and> (head lq = tail lq) = (vs = [])"
proof -
  from assms obtain as t where r: "LockedQueue_repr lq as t vs"
    by (auto simp: LockedQueue_holds_def)
  then have p: "path (store lq) (head lq) (as @ [t]) None" and tl: "tail lq = Some t"
    by (simp_all add: LockedQueue_repr_def)
  from p have hd: "head lq = Some (hd (as @ [t]))"
    by (cases as) (auto split: option.splits)
  from p have d: "distinct (as @ [t])" by (rule path_distinct)
  have "(head lq = tail lq) = (vs = [])"
  proof (cases as)
    case Nil
    with repr_lengths [OF r] hd tl show ?thesis by simp
  next
    case (Cons a bs)
    with d have "a \<noteq> t" by auto
    with Cons repr_lengths [OF r] hd tl show ?thesis by auto
  qed
  with p tl hd show ?thesis
    by (intro exI [of _ "as @ [t]"]) simp
qed

section \<open>Claims about the queues\<close>



text \<open>
  C3. A LockedQueue, right after its construction (which succeeds when one allocation
  succeeds), answers \<open>true\<close> to \<open>Empty\<close>; and after any sequence of calls (Push, the two
  TryPop, the two WaitAndPop, Empty) the chain owned by \<open>head_\<close> has at least one node and
  ends in the node \<open>tail_\<close> points to, \<open>head_\<close> is not null, and \<open>head_\<close> and \<open>tail_\<close>
  are the same node exactly when no pushed value is waiting to be received, which is also
  what \<open>Empty\<close> returns.
\<close>

theorem LockedQueue_dummy_node_invariant:
  "\<exists>lq0. LockedQueue_new (Suc m) = Returns lq0 \<and> LockedQueue_Empty lq0 \<and>
     (\<exists>lq pushed received.
        run LockedQueue_interface cs (lq0, [], []) = Some (lq, pushed, received) \<and>
        (\<exists>as. as \<noteq> [] \<and> path (store lq) (head lq) as None \<and> tail lq = Some (last as)) \<and>
        head lq \<noteq> None \<and>
        (head lq = tail lq) = (drop (length received) pushed = []) \<and>
        LockedQueue_Empty lq = (drop (length received) pushed = []))"
proof -
  let ?lq0 = "\<lparr>store = [Some \<lparr>data = None, nxt = None\<rparr>], head = Some 0, tail = Some 0\<rparr>
    :: 'a LockedQueue"
  from run_contract [OF LockedQueue_contract LockedQueue_new_holds(2), of "[]" "[]" cs]
  obtain lq pushed received vs where
    1: "run LockedQueue_interface cs (?lq0, [], []) = Some (lq, pushed, received)"
    and 2: "LockedQueue_holds lq vs" and 3: "pushed = received @ vs"
    by auto
  from 3 have vs: "drop (length received) pushed = vs" by simp
  from holds_shape [OF 2] vs have
    "(\<exists>as. as \<noteq> [] \<and> path (store lq) (head lq) as None \<and> tail lq = Some (last as)) \<and>
     head lq \<noteq> None \<and> (head lq = tail lq) = (drop (length received) pushed = []) \<and>
     LockedQueue_Empty lq = (drop (length received) pushed = [])"
    by (auto simp: LockedQueue_Empty_def GetTail_def)
  with 1 have "\<exists>lq pushed received.
        run LockedQueue_interface cs (?lq0, [], []) = Some (lq, pushed, received) \<and>
        (\<exists>as. as \<noteq> [] \<and> path (store lq) (head lq) as None \<and> tail lq = Some (last as)) \<and>
        head lq \<noteq> None \<and>
        (head lq = tail lq) = (drop (length received) pushed = []) \<and>
        LockedQueue_Empty lq = (drop (length received) pushed = [])"
    by blast
  moreover have "LockedQueue_Empty ?lq0" by (simp add: LockedQueue_Empty_def GetTail_def)
  ultimately show ?thesis using LockedQueue_new_holds(1) [of m] by blast
qed

lemma pops_from_contract:
  assumes I: "fifo_contract I R" and R: "R s0 []"
  shows "\<exists>s pushed received.
           run I cs (s0, [], []) = Some (s, pushed, received) \<and>
           (length received < length pushed \<longrightarrow>
              (\<exists>s'. iWaitAndPop I s = Returns (Some (pushed ! length received), s')) \<and>
              (\<exists>s'. iTryPop I s = Returns (Some (pushed ! length received), s')))"
proof -
  from run_contract [OF I R, of "[]" "[]" cs] obtain s pushed received vs where
    1: "run I cs (s0, [], []) = Some (s, pushed, received)" and 2: "R s vs"
    and 3: "pushed = received @ vs"
    by auto
  from next_pop_contract [OF I 2 3] 1 show ?thesis by blast
qed

lemma Push_stores_pointer:
  "ThreadSafeQueue_Push mem need v s =
     (if mem = 0 \<or> mem - 1 < need then Throws bad_alloc
      else Returns (s\<lparr>queue := queue s @ [Some v]\<rparr>))"
  "SimpleLockedQueue_Push mem need v s =
     (if mem = 0 \<or> mem - 1 < need then Throws bad_alloc
      else Returns (s\<lparr>queue := queue s @ [Some v]\<rparr>))"
  by (simp_all add: ThreadSafeQueue_Push_def SimpleLockedQueue_Push_def make_shared_def push_def)

text \<open>
  C2. The queue variants ThreadSafeQueue, SimpleLockedQueue and LockedQueue allocate in
  Push, before the queue is touched. A Push of the two container queues makes the shared
  pointer first; it throws \<^verbatim>\<open>std::bad_alloc\<close> when no allocation is left for the pointer
  or the container cannot allocate what it asks for, and otherwise appends the pointer to
  the value, the form in which a pop hands it out. A LockedQueue Push throws when fewer than
  two allocations are left, and otherwise leaves the pointer to the value in the chain,
  behind the values that were there. After any sequence of calls on a new queue of these three
  classes the run is defined (no pop went through a null pointer or read an empty
  container), and whenever a pushed value is still to be received, both value-returning
  pops, WaitAndPop and TryPop, return the pointer to the oldest such value: they take no
  allocator argument, and they neither throw nor park.
\<close>

theorem stored_pointer_pop_cannot_fail:
  "ThreadSafeQueue_Push mem need v s =
     (if mem = 0 \<or> mem - 1 < need then Throws bad_alloc
      else Returns (s\<lparr>queue := queue s @ [Some v]\<rparr>))
   \<and> SimpleLockedQueue_Push mem need v s =
     (if mem = 0 \<or> mem - 1 < need then Throws bad_alloc
      else Returns (s\<lparr>queue := queue s @ [Some v]\<rparr>))
   \<and> (mem < 2 \<longrightarrow> LockedQueue_Push mem v lq = Throws bad_alloc)
   \<and> (2 \<le> mem \<and> LockedQueue_holds lq vs \<longrightarrow>
        (\<exists>lq'. LockedQueue_Push mem v lq = Returns lq' \<and> LockedQueue_holds lq' (vs @ [v])))
   \<and> (\<exists>s pushed received.
        run ThreadSafeQueue_interface cs (ThreadSafeQueue_new, [], [])
          = Some (s, pushed, received) \<and>
        (length received < length pushed \<longrightarrow>
           (\<exists>s'. ThreadSafeQueue_WaitAndPop s = Returns (Some (pushed ! length received), s')) \<and>
           (\<exists>s'. ThreadSafeQueue_TryPop s = Returns (Some (pushed ! length received), s'))))
   \<and> (\<exists>s pushed received.
        run SimpleLockedQueue_interface cs (SimpleLockedQueue_new, [], [])
          = Some (s, pushed, received) \<and>
        (length received < length pushed \<longrightarrow>
           (\<exists>s'. SimpleLockedQueue_WaitAndPop s
                   = Returns (Some (pushed ! length received), s')) \<and>
           (\<exists>s'. SimpleLockedQueue_TryPop s = Returns (Some (pushed ! length received), s'))))
   \<and> (\<exists>lq0. LockedQueue_new (Suc m) = Returns lq0 \<and>
        (\<exists>lq pushed received.
           run LockedQueue_interface cs (lq0, [], []) = Some (lq, pushed, received) \<and>
           (length received < length pushed \<longrightarrow>
              (\<exists>lq'. LockedQueue_WaitAndPop lq
                       = Returns (Some (pushed ! length received), lq')) \<and>
              (\<exists>lq'. LockedQueue_TryPop lq
                       = Returns (Some (pushed ! length received), lq')))))"
proof (intro conjI)
  show "mem < 2 \<longrightarrow> LockedQueue_Push mem v lq = Throws bad_alloc"
    by (simp add: LockedQueue_Push_throws)
  show "2 \<le> mem \<and> LockedQueue_holds lq vs \<longrightarrow>
      (\<exists>lq'. LockedQueue_Push mem v lq = Returns lq' \<and> LockedQueue_holds lq' (vs @ [v]))"
  proof
    assume a: "2 \<le> mem \<and> LockedQueue_holds lq vs"
    then obtain as t where "LockedQueue_repr lq as t vs"
      by (auto simp: LockedQueue_holds_def)
    from LockedQueue_Push_repr [OF this, of mem v] a
    show "\<exists>lq'. LockedQueue_Push mem v lq = Returns lq' \<and> LockedQueue_holds lq' (vs @ [v])"
      unfolding LockedQueue_holds_def by blast
  qed
  from pops_from_contract [OF ThreadSafeQueue_contract ThreadSafeQueue_new_repr(1), of cs]
  show "\<exists>s pushed received.
        run ThreadSafeQueue_interface cs (ThreadSafeQueue_new, [], [])
          = Some (s, pushed, received) \<and>
        (length received < length pushed \<longrightarrow>
           (\<exists>s'. ThreadSafeQueue_WaitAndPop s = Returns (Some (pushed ! length received), s')) \<and>
           (\<exists>s'. ThreadSafeQueue_TryPop s = Returns (Some (pushed ! length received), s')))"
    by (simp add: ThreadSafeQueue_interface_def)
  from pops_from_contract [OF SimpleLockedQueue_contract ThreadSafeQueue_new_repr(2), of cs]
  show "\<exists>s pushed received.
        run SimpleLockedQueue_interface cs (SimpleLockedQueue_new, [], [])
          = Some (s, pushed, received) \<and>
        (length received < length pushed \<longrightarrow>
           (\<exists>s'. SimpleLockedQueue_WaitAndPop s
                   = Returns (Some (pushed ! length received), s')) \<and>
           (\<exists>s'. SimpleLockedQueue_TryPop s = Returns (Some (pushed ! length received), s')))"
    by (simp add: SimpleLockedQueue_interface_def)
  from pops_from_contract [OF LockedQueue_contract LockedQueue_new_holds(2), of cs]
  have "\<exists>lq pushed received.
           run LockedQueue_interface cs
             (\<lparr>store = [Some \<lparr>data = None, nxt = None\<rparr>], head = Some 0, tail = Some 0\<rparr>, [], [])
             = Some (lq, pushed, received) \<and>
           (length received < length pushed \<longrightarrow>
              (\<exists>lq'. LockedQueue_WaitAndPop lq
                       = Returns (Some (pushed ! length received), lq')) \<and>
              (\<exists>lq'. LockedQueue_TryPop lq
                       = Returns (Some (pushed ! length received), lq')))"
    by (simp add: LockedQueue_interface_def)
  with LockedQueue_new_holds(1) [of m]
  show "\<exists>lq0. LockedQueue_new (Suc m) = Returns lq0 \<and>
        (\<exists>lq pushed received.
           run LockedQueue_interface cs (lq0, [], []) = Some (lq, pushed, received) \<and>
           (length received < length pushed \<longrightarrow>
              (\<exists>lq'. LockedQueue_WaitAndPop lq
                       = Returns (Some (pushed ! length received), lq')) \<and>
              (\<exists>lq'. LockedQueue_TryPop lq
                       = Returns (Some (pushed ! length received), lq'))))"
    by blast
qed (rule Push_stores_pointer)+

text \<open>
  One Push of 7 with two allocations available, on each of the three classes (the
  container asking for one); and a LockedQueue Push with one allocation left.
\<close>

theorem stored_pointer_pop_cannot_fail_witness:
  "LockedQueue_Push 1 (7::nat)
       \<lparr>store = [Some \<lparr>data = None, nxt = None\<rparr>], head = Some 0, tail = Some 0\<rparr>
     = Throws bad_alloc
   \<and> run ThreadSafeQueue_interface [Call_Push 2 1 (7::nat)] (ThreadSafeQueue_new, [], [])
     = Some (\<lparr>queue = [Some 7]\<rparr>, [7], [])
   \<and> (\<exists>s'. ThreadSafeQueue_WaitAndPop \<lparr>queue = [Some (7::nat)]\<rparr> = Returns (Some 7, s'))
   \<and> (\<exists>s'. SimpleLockedQueue_TryPop \<lparr>queue = [Some (7::nat)]\<rparr> = Returns (Some 7, s'))
   \<and> run LockedQueue_interface [Call_Push 2 1 (7::nat)]
         (\<lparr>store = [Some \<lparr>data = None, nxt = None\<rparr>], head = Some 0, tail = Some 0\<rparr>, [], [])
     = Some (\<lparr>store = [Some \<lparr>data = Some 7, nxt = Some 1\<rparr>, Some \<lparr>data = None, nxt = None\<rparr>],
               head = Some 0, tail = Some 1\<rparr>, [7], [])
   \<and> (\<exists>lq'. LockedQueue_WaitAndPop
         \<lparr>store = [Some \<lparr>data = Some (7::nat), nxt = Some 1\<rparr>, Some \<lparr>data = None, nxt = None\<rparr>],
          head = Some 0, tail = Some 1\<rparr> = Returns (Some 7, lq'))
   \<and> (\<exists>lq'. LockedQueue_TryPop
         \<lparr>store = [Some \<lparr>data = Some (7::nat), nxt = Some 1\<rparr>, Some \<lparr>data = None, nxt = None\<rparr>],
          head = Some 0, tail = Some 1\<rparr> = Returns (Some 7, lq'))"
proof -
  have h: "LockedQueue_holds
      (\<lparr>store = [Some \<lparr>data = None, nxt = None\<rparr>], head = Some 0, tail = Some 0\<rparr>
         :: nat LockedQueue) []"
    by (rule LockedQueue_new_holds(2))
  show ?thesis
    using stored_pointer_pop_cannot_fail [of 1 0 "7::nat" ThreadSafeQueue_new
        "\<lparr>store = [Some \<lparr>data = None, nxt = None\<rparr>], head = Some 0, tail = Some 0\<rparr>"
        "[]" "[Call_Push 2 1 (7::nat)]" 0]
      stored_pointer_pop_cannot_fail [of 2 1 "7::nat" ThreadSafeQueue_new
        "\<lparr>store = [Some \<lparr>data = None, nxt = None\<rparr>], head = Some 0, tail = Some 0\<rparr>"
        "[]" "[Call_Push 2 1 (7::nat)]" 0]
      h
    by (simp add: ThreadSafeQueue_interface_def SimpleLockedQueue_interface_def
        LockedQueue_interface_def ThreadSafeQueue_new_def SimpleLockedQueue_new_def
        ThreadSafeQueue_Push_def SimpleLockedQueue_Push_def
        LockedQueue_new_def LockedQueue_Push_def make_shared_def new_Node_def load_def
        settle_def push_def)
qed

text \<open>
  The superseded classes ThreadSafeQueue1 and SimpleLockedQueue1, for comparison: after a
  Push of 7 the container holds the value itself, and with no allocation left both
  value-returning pops throw \<^verbatim>\<open>std::bad_alloc\<close> although the queue is not empty. This is
  the defect the comment at the head of simple_thread_safe_queue.h describes.
\<close>

lemma ThreadSafeQueue1_pop_allocates:
  "ThreadSafeQueue1_Push 0 0 (7::nat) ThreadSafeQueue1_new = Returns \<lparr>queue1 = [7]\<rparr>
   \<and> ThreadSafeQueue1_WaitAndPop 0 \<lparr>queue1 = [7::nat]\<rparr> = Throws bad_alloc
   \<and> ThreadSafeQueue1_TryPop 0 \<lparr>queue1 = [7::nat]\<rparr> = Throws bad_alloc
   \<and> SimpleLockedQueue1_Push 0 0 (7::nat) SimpleLockedQueue1_new = Returns \<lparr>queue1 = [7]\<rparr>
   \<and> SimpleLockedQueue1_WaitAndPop 0 \<lparr>queue1 = [7::nat]\<rparr> = Throws bad_alloc
   \<and> SimpleLockedQueue1_TryPop 0 \<lparr>queue1 = [7::nat]\<rparr> = Throws bad_alloc"
  by (simp add: ThreadSafeQueue1_Push_def ThreadSafeQueue1_new_def ThreadSafeQueue1_WaitAndPop_def
      ThreadSafeQueue1_TryPop_def SimpleLockedQueue1_Push_def SimpleLockedQueue1_new_def
      SimpleLockedQueue1_WaitAndPop_def SimpleLockedQueue1_TryPop_def make_shared_def
      container_defs)

lemma and_then_Returns_iff:
  "and_then m f = Returns y \<longleftrightarrow> (\<exists>x. m = Returns x \<and> f x = Returns y)"
  by (cases m) auto

lemma PopHead_Returns: "PopHead lq = Returns (p, lq') \<Longrightarrow> p \<noteq> None"
  by (auto simp: PopHead_def and_then_Returns_iff split: option.splits)

lemma LockedQueue_TryPop_out_False:
  assumes "LockedQueue_TryPop_out val lq = Returns (False, val', lq')"
  shows "val' = val \<and> lq' = lq"
proof (cases "head lq = GetTail lq")
  case True
  with assms show ?thesis
    by (simp add: LockedQueue_TryPop_out_def TryPopHead_out_def)
next
  case False
  with assms obtain old_head lq1 where "PopHead lq = Returns (old_head, lq1)"
    and "old_head = None"
    by (auto simp: LockedQueue_TryPop_out_def TryPopHead_out_def and_then_Returns_iff)
  with PopHead_Returns show ?thesis by blast
qed



lemma ThreadSafeQueue_TryPop_out_False:
  "ThreadSafeQueue_TryPop_out val s = Returns (False, val', s') \<Longrightarrow> val' = val \<and> s' = s"
  by (cases "queue s = []") (auto simp: ThreadSafeQueue_TryPop_out_def and_then_Returns_iff)

lemma WorkStealingQueue_TryPop_False:
  "WorkStealingQueue_TryPop t w = Returns (False, t', w') \<Longrightarrow> t' = t \<and> w' = w"
  by (cases "q w = []") (auto simp: WorkStealingQueue_TryPop_def and_then_Returns_iff)

lemma WorkStealingQueue_TrySteal_False:
  "WorkStealingQueue_TrySteal t w = Returns (False, t', w') \<Longrightarrow> t' = t \<and> w' = w"
  by (cases "q w = []") (auto simp: WorkStealingQueue_TrySteal_def and_then_Returns_iff)

lemma TryPop_out_empty:
  "ThreadSafeQueue_Empty s \<Longrightarrow> ThreadSafeQueue_TryPop_out val s = Returns (False, val, s)"
  "LockedQueue_Empty lq \<Longrightarrow> LockedQueue_TryPop_out val lq = Returns (False, val, lq)"
  "WorkStealingQueue_Empty w \<Longrightarrow> WorkStealingQueue_TryPop t w = Returns (False, t, w)"
  "WorkStealingQueue_Empty w \<Longrightarrow> WorkStealingQueue_TrySteal t w = Returns (False, t, w)"
  by (simp_all add: ThreadSafeQueue_TryPop_out_def ThreadSafeQueue_Empty_def
      LockedQueue_TryPop_out_def TryPopHead_out_def LockedQueue_Empty_def
      WorkStealingQueue_TryPop_def WorkStealingQueue_TrySteal_def WorkStealingQueue_Empty_def)

lemma TryPop_empty:
  "ThreadSafeQueue_Empty s \<Longrightarrow> ThreadSafeQueue_TryPop s = Returns (None, s)"
  "ThreadSafeQueue1_Empty s1 \<Longrightarrow> ThreadSafeQueue1_TryPop mem s1 = Returns (None, s1)"
  "ThreadSafeQueue1_Empty s1 \<Longrightarrow> ThreadSafeQueue1_TryPop_out val s1 = Returns (False, val, s1)"
  "SimpleLockedQueue_Empty s \<Longrightarrow> SimpleLockedQueue_TryPop s = Returns (None, s)"
  "SimpleLockedQueue_Empty s \<Longrightarrow> SimpleLockedQueue_TryPop_out val s = Returns (False, val, s)"
  "SimpleLockedQueue1_Empty s1 \<Longrightarrow> SimpleLockedQueue1_TryPop mem s1 = Returns (None, s1)"
  "SimpleLockedQueue1_Empty s1 \<Longrightarrow>
     SimpleLockedQueue1_TryPop_out val s1 = Returns (False, val, s1)"
  "LockedQueue_Empty lq \<Longrightarrow> LockedQueue_TryPop lq = Returns (None, lq)"
  by (simp_all add: ThreadSafeQueue_TryPop_def ThreadSafeQueue_Empty_def
      ThreadSafeQueue1_TryPop_def ThreadSafeQueue1_TryPop_out_def ThreadSafeQueue1_Empty_def
      SimpleLockedQueue_TryPop_def SimpleLockedQueue_TryPop_out_def SimpleLockedQueue_Empty_def
      SimpleLockedQueue1_TryPop_def SimpleLockedQueue1_TryPop_out_def
      SimpleLockedQueue1_Empty_def
      LockedQueue_TryPop_def TryPopHead_def LockedQueue_Empty_def)

text \<open>
  C9. On an empty queue of any of the classes (ThreadSafeQueue, ThreadSafeQueue1,
  SimpleLockedQueue, SimpleLockedQueue1, LockedQueue, and WorkStealingQueue with TryPop
  and TrySteal), \<open>n\<close> TryPop calls in a row all return: the value-returning form a null
  pointer each time, the out-parameter form \<open>false\<close> each time with the caller's variable
  untouched; and the queue is afterwards what it was. No call throws or parks.
\<close>

theorem TryPop_on_empty_queue_is_idle:
  "(ThreadSafeQueue_Empty s \<longrightarrow>
      repeat_TryPop n ThreadSafeQueue_TryPop s = Returns (replicate n None, s) \<and>
      repeat_TryPop_out n ThreadSafeQueue_TryPop_out val s = Returns (replicate n False, val, s))
   \<and> (ThreadSafeQueue1_Empty s1 \<longrightarrow>
      repeat_TryPop n (ThreadSafeQueue1_TryPop mem) s1 = Returns (replicate n None, s1) \<and>
      repeat_TryPop_out n ThreadSafeQueue1_TryPop_out val s1
        = Returns (replicate n False, val, s1))
   \<and> (SimpleLockedQueue_Empty s \<longrightarrow>
      repeat_TryPop n SimpleLockedQueue_TryPop s = Returns (replicate n None, s) \<and>
      repeat_TryPop_out n SimpleLockedQueue_TryPop_out val s
        = Returns (replicate n False, val, s))
   \<and> (SimpleLockedQueue1_Empty s1 \<longrightarrow>
      repeat_TryPop n (SimpleLockedQueue1_TryPop mem) s1 = Returns (replicate n None, s1) \<and>
      repeat_TryPop_out n SimpleLockedQueue1_TryPop_out val s1
        = Returns (replicate n False, val, s1))
   \<and> (LockedQueue_Empty lq \<longrightarrow>
      repeat_TryPop n LockedQueue_TryPop lq = Returns (replicate n None, lq) \<and>
      repeat_TryPop_out n LockedQueue_TryPop_out val lq = Returns (replicate n False, val, lq))
   \<and> (WorkStealingQueue_Empty w \<longrightarrow>
      repeat_TryPop_out n WorkStealingQueue_TryPop t w = Returns (replicate n False, t, w) \<and>
      repeat_TryPop_out n WorkStealingQueue_TrySteal t w = Returns (replicate n False, t, w))"
proof (intro conjI impI)
  assume e: "ThreadSafeQueue_Empty s"
  show "repeat_TryPop n ThreadSafeQueue_TryPop s = Returns (replicate n None, s)"
    by (rule repeat_TryPop_idle) (rule TryPop_empty(1) [OF e])
  show "repeat_TryPop_out n ThreadSafeQueue_TryPop_out val s
      = Returns (replicate n False, val, s)"
    by (rule repeat_TryPop_out_idle) (rule TryPop_out_empty(1) [OF e])
next
  assume e: "ThreadSafeQueue1_Empty s1"
  show "repeat_TryPop n (ThreadSafeQueue1_TryPop mem) s1 = Returns (replicate n None, s1)"
    by (rule repeat_TryPop_idle) (rule TryPop_empty(2) [OF e])
  show "repeat_TryPop_out n ThreadSafeQueue1_TryPop_out val s1
      = Returns (replicate n False, val, s1)"
    by (rule repeat_TryPop_out_idle) (rule TryPop_empty(3) [OF e])
next
  assume e: "SimpleLockedQueue_Empty s"
  show "repeat_TryPop n SimpleLockedQueue_TryPop s = Returns (replicate n None, s)"
    by (rule repeat_TryPop_idle) (rule TryPop_empty(4) [OF e])
  show "repeat_TryPop_out n SimpleLockedQueue_TryPop_out val s
      = Returns (replicate n False, val, s)"
    by (rule repeat_TryPop_out_idle) (rule TryPop_empty(5) [OF e])
next
  assume e: "SimpleLockedQueue1_Empty s1"
  show "repeat_TryPop n (SimpleLockedQueue1_TryPop mem) s1 = Returns (replicate n None, s1)"
    by (rule repeat_TryPop_idle) (rule TryPop_empty(6) [OF e])
  show "repeat_TryPop_out n SimpleLockedQueue1_TryPop_out val s1
      = Returns (replicate n False, val, s1)"
    by (rule repeat_TryPop_out_idle) (rule TryPop_empty(7) [OF e])
next
  assume e: "LockedQueue_Empty lq"
  show "repeat_TryPop n LockedQueue_TryPop lq = Returns (replicate n None, lq)"
    by (rule repeat_TryPop_idle) (rule TryPop_empty(8) [OF e])
  show "repeat_TryPop_out n LockedQueue_TryPop_out val lq = Returns (replicate n False, val, lq)"
    by (rule repeat_TryPop_out_idle) (rule TryPop_out_empty(2) [OF e])
next
  assume e: "WorkStealingQueue_Empty w"
  show "repeat_TryPop_out n WorkStealingQueue_TryPop t w = Returns (replicate n False, t, w)"
    by (rule repeat_TryPop_out_idle) (rule TryPop_out_empty(3) [OF e])
  show "repeat_TryPop_out n WorkStealingQueue_TrySteal t w = Returns (replicate n False, t, w)"
    by (rule repeat_TryPop_out_idle) (rule TryPop_out_empty(4) [OF e])
qed


text \<open>Three calls in a row on newly constructed queues.\<close>

theorem TryPop_on_empty_queue_is_idle_witness:
  "ThreadSafeQueue_Empty (ThreadSafeQueue_new :: nat ThreadSafeQueue)
   \<and> repeat_TryPop 3 ThreadSafeQueue_TryPop (ThreadSafeQueue_new :: nat ThreadSafeQueue)
       = Returns (replicate 3 None, ThreadSafeQueue_new)
   \<and> ThreadSafeQueue1_Empty (ThreadSafeQueue1_new :: nat ThreadSafeQueue1)
   \<and> repeat_TryPop 3 (ThreadSafeQueue1_TryPop 0) (ThreadSafeQueue1_new :: nat ThreadSafeQueue1)
       = Returns (replicate 3 None, ThreadSafeQueue1_new)
   \<and> SimpleLockedQueue_Empty (SimpleLockedQueue_new :: nat SimpleLockedQueue)
   \<and> repeat_TryPop_out 3 SimpleLockedQueue_TryPop_out (5::nat) SimpleLockedQueue_new
       = Returns (replicate 3 False, 5, SimpleLockedQueue_new)
   \<and> SimpleLockedQueue1_Empty (SimpleLockedQueue1_new :: nat SimpleLockedQueue1)
   \<and> repeat_TryPop_out 3 SimpleLockedQueue1_TryPop_out (5::nat) SimpleLockedQueue1_new
       = Returns (replicate 3 False, 5, SimpleLockedQueue1_new)
   \<and> LockedQueue_Empty
         (\<lparr>store = [Some \<lparr>data = None, nxt = None\<rparr>], head = Some 0, tail = Some 0\<rparr>
            :: nat LockedQueue)
   \<and> repeat_TryPop 3 LockedQueue_TryPop
         (\<lparr>store = [Some \<lparr>data = None, nxt = None\<rparr>], head = Some 0, tail = Some 0\<rparr>
            :: nat LockedQueue)
       = Returns (replicate 3 None,
           \<lparr>store = [Some \<lparr>data = None, nxt = None\<rparr>], head = Some 0, tail = Some 0\<rparr>)
   \<and> WorkStealingQueue_Empty (WorkStealingQueue_new :: nat WorkStealingQueue)
   \<and> repeat_TryPop_out 3 WorkStealingQueue_TrySteal (5::nat) WorkStealingQueue_new
       = Returns (replicate 3 False, 5, WorkStealingQueue_new)"
  using TryPop_on_empty_queue_is_idle [of "ThreadSafeQueue_new :: nat ThreadSafeQueue" 3 5
      "ThreadSafeQueue1_new :: nat ThreadSafeQueue1" 0
      "\<lparr>store = [Some \<lparr>data = None, nxt = None\<rparr>], head = Some 0, tail = Some 0\<rparr>"
      "WorkStealingQueue_new :: nat WorkStealingQueue" 5]
  by (simp add: ThreadSafeQueue_Empty_def ThreadSafeQueue_new_def ThreadSafeQueue1_Empty_def
      ThreadSafeQueue1_new_def SimpleLockedQueue_Empty_def SimpleLockedQueue_new_def
      SimpleLockedQueue1_Empty_def SimpleLockedQueue1_new_def LockedQueue_Empty_def
      GetTail_def WorkStealingQueue_Empty_def WorkStealingQueue_new_def)


text \<open>
  C10. For ThreadSafeQueue::TryPop(T*), LockedQueue::TryPop(T*), WorkStealingQueue::TryPop
  and WorkStealingQueue::TrySteal: whenever the call returns \<open>false\<close>, the content of the
  caller's variable after the call is its content before the call, and the queue is
  unchanged; and on an empty container the call does return \<open>false\<close>.
\<close>

theorem failed_pop_leaves_out_parameter:
  "(ThreadSafeQueue_TryPop_out val s = Returns (False, val', s') \<longrightarrow> val' = val \<and> s' = s)
   \<and> (ThreadSafeQueue_Empty s \<longrightarrow> ThreadSafeQueue_TryPop_out val s = Returns (False, val, s))
   \<and> (LockedQueue_TryPop_out val lq = Returns (False, val', lq') \<longrightarrow> val' = val \<and> lq' = lq)
   \<and> (LockedQueue_Empty lq \<longrightarrow> LockedQueue_TryPop_out val lq = Returns (False, val, lq))
   \<and> (WorkStealingQueue_TryPop t w = Returns (False, t', w') \<longrightarrow> t' = t \<and> w' = w)
   \<and> (WorkStealingQueue_Empty w \<longrightarrow> WorkStealingQueue_TryPop t w = Returns (False, t, w))
   \<and> (WorkStealingQueue_TrySteal t w = Returns (False, t', w') \<longrightarrow> t' = t \<and> w' = w)
   \<and> (WorkStealingQueue_Empty w \<longrightarrow> WorkStealingQueue_TrySteal t w = Returns (False, t, w))"
  using ThreadSafeQueue_TryPop_out_False [of val s val' s']
    LockedQueue_TryPop_out_False [of val lq val' lq']
    WorkStealingQueue_TryPop_False [of t w t' w']
    WorkStealingQueue_TrySteal_False [of t w t' w']
    TryPop_out_empty(1) [of s val] TryPop_out_empty(2) [of lq val]
    TryPop_out_empty(3) [of w t] TryPop_out_empty(4) [of w t]
  by blast

text \<open>The four calls on newly constructed, empty containers, with 5 in the variable.\<close>

theorem failed_pop_leaves_out_parameter_witness:
  "ThreadSafeQueue_Empty (ThreadSafeQueue_new :: nat ThreadSafeQueue)
   \<and> ThreadSafeQueue_TryPop_out (5::nat) ThreadSafeQueue_new
       = Returns (False, 5, ThreadSafeQueue_new)
   \<and> LockedQueue_Empty
         (\<lparr>store = [Some \<lparr>data = None, nxt = None\<rparr>], head = Some 0, tail = Some 0\<rparr>
            :: nat LockedQueue)
   \<and> LockedQueue_TryPop_out (5::nat)
         \<lparr>store = [Some \<lparr>data = None, nxt = None\<rparr>], head = Some 0, tail = Some 0\<rparr>
       = Returns (False, 5,
           \<lparr>store = [Some \<lparr>data = None, nxt = None\<rparr>], head = Some 0, tail = Some 0\<rparr>)
   \<and> WorkStealingQueue_Empty (WorkStealingQueue_new :: nat WorkStealingQueue)
   \<and> WorkStealingQueue_TryPop (5::nat) WorkStealingQueue_new
       = Returns (False, 5, WorkStealingQueue_new)
   \<and> WorkStealingQueue_TrySteal (5::nat) WorkStealingQueue_new
       = Returns (False, 5, WorkStealingQueue_new)"
  using failed_pop_leaves_out_parameter [of 5 "ThreadSafeQueue_new :: nat ThreadSafeQueue"
      5 ThreadSafeQueue_new
      "\<lparr>store = [Some \<lparr>data = None, nxt = None\<rparr>], head = Some 0, tail = Some 0\<rparr>"
      "\<lparr>store = [Some \<lparr>data = None, nxt = None\<rparr>], head = Some 0, tail = Some 0\<rparr>"
      5 "WorkStealingQueue_new :: nat WorkStealingQueue" 5 WorkStealingQueue_new]
  by (simp add: ThreadSafeQueue_Empty_def ThreadSafeQueue_new_def LockedQueue_Empty_def
      GetTail_def WorkStealingQueue_Empty_def WorkStealingQueue_new_def)

section \<open>Properties of the thread pool\<close>

lemma push_back_queues_Returns:
  "push_back_queues i n faults qs = Returns qs' \<longleftrightarrow>
     (\<forall>k. i \<le> k \<and> k < n \<longrightarrow> faults (Make_queue k) = None \<and> faults (Append_queue k) = None) \<and>
     qs' = qs @ replicate (n - i) WorkStealingQueue_new"
proof (induction i n faults qs rule: push_back_queues.induct)
  case (1 i n faults qs)
  show ?case
  proof (cases "i < n")
    case False
    then show ?thesis by (subst push_back_queues.simps) auto
  next
    case True
    then have rep: "replicate (n - i) WorkStealingQueue_new
        = (WorkStealingQueue_new :: 'a FunctionWrapper WorkStealingQueue)
          # replicate (n - (i + 1)) WorkStealingQueue_new"
      by (cases "n - i") (simp_all add: Suc_diff_Suc)
    have split: "(\<forall>k. i \<le> k \<and> k < n \<longrightarrow> P k) \<longleftrightarrow> P i \<and> (\<forall>k. i + 1 \<le> k \<and> k < n \<longrightarrow> P k)" for P
      using True by (auto simp: Suc_le_eq dest: le_neq_implies_less)
    show ?thesis
    proof (cases "faults (Make_queue i)")
      case (Some e)
      with True show ?thesis by (subst push_back_queues.simps) auto
    next
      case None
      show ?thesis
      proof (cases "faults (Append_queue i)")
        case (Some e)
        with True None show ?thesis by (subst push_back_queues.simps) auto
      next
        case None': None
        from "1.IH" [OF True None None'] True None None' rep show ?thesis
          by (subst push_back_queues.simps) (simp add: split)
      qed
    qed
  qed
qed

lemma push_back_threads_Returns:
  "push_back_threads i n faults ts = Returns ts' \<longleftrightarrow>
     (\<forall>k. i \<le> k \<and> k < n \<longrightarrow> faults (Start_thread k) = None \<and> faults (Append_thread k) = None) \<and>
     ts' = ts @ map Thread [i..<n]"
proof (induction i n faults ts rule: push_back_threads.induct)
  case (1 i n faults ts)
  show ?case
  proof (cases "i < n")
    case False
    then show ?thesis by (subst push_back_threads.simps) auto
  next
    case True
    then have up: "[i..<n] = i # [i + 1..<n]" by (simp add: upt_conv_Cons)
    have split: "(\<forall>k. i \<le> k \<and> k < n \<longrightarrow> P k) \<longleftrightarrow> P i \<and> (\<forall>k. i + 1 \<le> k \<and> k < n \<longrightarrow> P k)" for P
      using True by (auto simp: Suc_le_eq dest: le_neq_implies_less)
    show ?thesis
    proof (cases "faults (Start_thread i)")
      case (Some e)
      with True show ?thesis by (subst push_back_threads.simps) auto
    next
      case None
      show ?thesis
      proof (cases "faults (Append_thread i)")
        case (Some e)
        with True None show ?thesis by (subst push_back_threads.simps) auto
      next
        case None': None
        from "1.IH" [OF True None None'] True None None' up show ?thesis
          by (subst push_back_threads.simps) (simp add: split)
      qed
    qed
  qed
qed

lemma ThreadPool_new_Returns:
  "ThreadPool_new hc mem faults = Returns p \<longleftrightarrow>
     0 < mem \<and>
     (\<forall>i<hc. faults (Make_queue i) = None \<and> faults (Append_queue i) = None \<and>
             faults (Start_thread i) = None \<and> faults (Append_thread i) = None) \<and>
     p = \<lparr>done = False,
          global_task_queue =
            \<lparr>store = [Some \<lparr>data = None, nxt = None\<rparr>], head = Some 0, tail = Some 0\<rparr>,
          local_task_queues = replicate hc WorkStealingQueue_new,
          threads = map Thread [0..<hc], shared_states = [], yields = 0\<rparr>"
  by (cases "mem = 0")
    (auto simp: ThreadPool_new_def LockedQueue_new_def new_Node_def and_then_Returns_iff
      push_back_queues_Returns push_back_threads_Returns)


text \<open>
  Three constructions that fail, on a host that reports two hardware threads: the second
  thread cannot be started; \<^verbatim>\<open>threads_\<close> cannot grow for the second thread; the first node
  of the global queue cannot be allocated.
\<close>

lemma ThreadPool_new_faults:
  "ThreadPool_new 2 100 (no_faults(Start_thread 1 := Some system_error))
     = (Throws system_error :: unit ThreadPool outcome)"
  "ThreadPool_new 2 100 (no_faults(Append_thread 1 := Some bad_alloc))
     = (Terminates :: unit ThreadPool outcome)"
  "ThreadPool_new 2 0 no_faults = (Throws bad_alloc :: unit ThreadPool outcome)"
  by (simp_all add: ThreadPool_new_def LockedQueue_new_def new_Node_def no_faults_def
      push_back_queues.simps push_back_threads.simps)

lemma and_then_Blocks_iff:
  "and_then m f = Blocks \<longleftrightarrow> m = Blocks \<or> (\<exists>x. m = Returns x \<and> f x = Blocks)"
  by (cases m) auto

lemma delete_Node_not_Blocks: "delete_Node a h \<noteq> Blocks"
  by (induction a h rule: delete_Node.induct) (auto split: option.splits)

lemma load_not_Blocks: "load h a \<noteq> Blocks"
  by (auto simp: load_def split: option.splits)

lemma PopHead_not_Blocks: "PopHead lq \<noteq> Blocks"
  by (auto simp: PopHead_def and_then_Blocks_iff load_not_Blocks split: option.splits)

lemma deref_not_Blocks: "deref x \<noteq> Blocks"
  by (auto simp: deref_def split: option.splits)

lemma TryPopHead_out_not_Blocks: "TryPopHead_out val lq \<noteq> Blocks"
  by (cases "head lq = GetTail lq")
    (auto simp: TryPopHead_out_def and_then_Blocks_iff load_not_Blocks deref_not_Blocks
      PopHead_not_Blocks)

lemma LockedQueue_TryPop_out_not_Blocks: "LockedQueue_TryPop_out val lq \<noteq> Blocks"
  by (auto simp: LockedQueue_TryPop_out_def and_then_Blocks_iff TryPopHead_out_not_Blocks
      delete_Node_not_Blocks)

lemma LockedQueue_Push_not_Blocks: "LockedQueue_Push mem v lq \<noteq> Blocks"
  by (auto simp: LockedQueue_Push_def and_then_Blocks_iff make_shared_def new_Node_def
      load_not_Blocks delete_Node_not_Blocks split: option.splits)

lemma WorkStealingQueue_TryPop_not_Blocks: "WorkStealingQueue_TryPop t w \<noteq> Blocks"
  by (cases "q w") (auto simp: WorkStealingQueue_TryPop_def container_defs)

lemma WorkStealingQueue_TrySteal_not_Blocks: "WorkStealingQueue_TrySteal t w \<noteq> Blocks"
  by (cases "q w = []") (auto simp: WorkStealingQueue_TrySteal_def container_defs)

lemma FunctionWrapper_call_not_Blocks: "FunctionWrapper_call t ss \<noteq> Blocks"
  by (auto simp: FunctionWrapper_call_def packaged_task_call_def split: option.splits)

lemma run_task_not_Blocks: "run_task t p \<noteq> Blocks"
  by (auto simp: run_task_def and_then_Blocks_iff FunctionWrapper_call_not_Blocks)

lemma PopTaskFromLocalQueue_not_Blocks: "PopTaskFromLocalQueue t me p \<noteq> Blocks"
  by (auto simp: PopTaskFromLocalQueue_def and_then_Blocks_iff
      WorkStealingQueue_TryPop_not_Blocks split: option.splits)

lemma PopTaskFromGlobalQueue_not_Blocks: "PopTaskFromGlobalQueue t p \<noteq> Blocks"
  by (auto simp: PopTaskFromGlobalQueue_def and_then_Blocks_iff
      LockedQueue_TryPop_out_not_Blocks)

lemma PopTaskFromOtherThreadQueue_from_not_Blocks:
  "PopTaskFromOtherThreadQueue_from i t me p \<noteq> Blocks"
proof (induction i t me p rule: PopTaskFromOtherThreadQueue_from.induct)
  case (1 i task me p)
  let ?qs = "local_task_queues p"
  let ?index = "steal_index (my_index me) i (length ?qs)"
  show ?case
  proof (cases "i < length ?qs")
    case False
    then show ?thesis by (subst PopTaskFromOtherThreadQueue_from.simps) simp
  next
    case True
    show ?thesis
    proof (cases "WorkStealingQueue_TrySteal task (?qs ! ?index)")
      case (Returns r)
      obtain b t w where r: "r = (b, t, w)" by (cases r)
      show ?thesis
      proof (cases b)
        case True
        with \<open>i < length ?qs\<close> Returns r show ?thesis
          by (subst PopTaskFromOtherThreadQueue_from.simps) simp
      next
        case False
        from Returns r have s: "WorkStealingQueue_TrySteal task (?qs ! ?index) = Returns (b, t, w)"
          by simp
        from "1.IH" [OF \<open>i < length ?qs\<close> refl s refl refl False]
        have "PopTaskFromOtherThreadQueue_from (i + 1) t me (p\<lparr>local_task_queues := ?qs[?index := w]\<rparr>)
            \<noteq> Blocks"
          by simp
        with \<open>i < length ?qs\<close> Returns r False show ?thesis
          by (subst PopTaskFromOtherThreadQueue_from.simps) simp
      qed
    next
      case (Throws e)
      with True show ?thesis by (subst PopTaskFromOtherThreadQueue_from.simps) simp
    next
      case Undefined
      with True show ?thesis by (subst PopTaskFromOtherThreadQueue_from.simps) simp
    next
      case Blocks
      then show ?thesis by (simp add: WorkStealingQueue_TrySteal_not_Blocks)
    next
      case Terminates
      with True show ?thesis by (subst PopTaskFromOtherThreadQueue_from.simps) simp
    qed
  qed
qed

lemma RunPendingTask_not_Blocks: "RunPendingTask me p \<noteq> Blocks"
  by (auto simp: RunPendingTask_def and_then_Blocks_iff PopTaskFromLocalQueue_not_Blocks
      PopTaskFromGlobalQueue_not_Blocks PopTaskFromOtherThreadQueue_def
      PopTaskFromOtherThreadQueue_from_not_Blocks run_task_not_Blocks)

lemma steal_index_eq:
  assumes "me + n < 2 ^ 32" "i < n"
  shows "steal_index me i n = (me + 1 + i) mod n"
proof -
  from assms have "me + 1 + i < 2 ^ 32" by simp
  then show ?thesis by (simp add: steal_index_def)
qed

lemma TrySteal_eq:
  "WorkStealingQueue_TrySteal task w =
     (if q w = [] then Returns (False, task, w)
      else Returns (True, last (q w), w\<lparr>q := butlast (q w)\<rparr>))"
  by (simp add: WorkStealingQueue_TrySteal_def container_defs)

lemma TryPop_eq:
  "WorkStealingQueue_TryPop task w =
     (case q w of [] \<Rightarrow> Returns (False, task, w) | t # rest \<Rightarrow> Returns (True, t, w\<lparr>q := rest\<rparr>))"
  by (simp add: WorkStealingQueue_TryPop_def container_defs split: list.splits)

lemma steal_from:
  assumes "my_index me + length (local_task_queues p) < 2 ^ 32"
  shows "PopTaskFromOtherThreadQueue_from i task me p =
     (case find (\<lambda>j. q (local_task_queues p ! j) \<noteq> [])
             (map (\<lambda>i. (my_index me + 1 + i) mod length (local_task_queues p))
                [i..<length (local_task_queues p)]) of
        None \<Rightarrow> Returns (False, task, p)
      | Some j \<Rightarrow>
          Returns (True, last (q (local_task_queues p ! j)),
            p\<lparr>local_task_queues := (local_task_queues p)
                 [j := (local_task_queues p ! j)\<lparr>q := butlast (q (local_task_queues p ! j))\<rparr>]\<rparr>))"
proof (induction "length (local_task_queues p) - i" arbitrary: i)
  case 0
  then have "\<not> i < length (local_task_queues p)" by simp
  then show ?case by (subst PopTaskFromOtherThreadQueue_from.simps) simp
next
  case (Suc d)
  let ?qs = "local_task_queues p" and ?n = "length (local_task_queues p)"
  from Suc.hyps(2) have i: "i < ?n" and d: "d = ?n - (i + 1)" by simp_all
  let ?j = "(my_index me + 1 + i) mod ?n"
  from assms i have idx: "steal_index (my_index me) i ?n = ?j" by (rule steal_index_eq)
  from i have up: "[i..<?n] = i # [i + 1..<?n]" by (simp add: upt_conv_Cons)
  show ?case
  proof (cases "q (?qs ! ?j) = []")
    case True
    with i idx have "PopTaskFromOtherThreadQueue_from i task me p =
        PopTaskFromOtherThreadQueue_from (i + 1) task me p"
      by (subst PopTaskFromOtherThreadQueue_from.simps) (simp add: TrySteal_eq Let_def)
    with Suc.hyps(1) [OF d] True up show ?thesis by simp
  next
    case False
    with i idx have "PopTaskFromOtherThreadQueue_from i task me p =
        Returns (True, last (q (?qs ! ?j)),
          p\<lparr>local_task_queues := ?qs[?j := (?qs ! ?j)\<lparr>q := butlast (q (?qs ! ?j))\<rparr>]\<rparr>)"
      by (subst PopTaskFromOtherThreadQueue_from.simps) (simp add: TrySteal_eq Let_def)
    with False up show ?thesis by simp
  qed
qed

lemma PopTaskFromOtherThreadQueue_eq:
  assumes "my_index me + length (local_task_queues p) < 2 ^ 32"
  shows "PopTaskFromOtherThreadQueue task me p =
     (case find (\<lambda>j. q (local_task_queues p ! j) \<noteq> [])
             (round_robin_after (my_index me) (length (local_task_queues p))) of
        None \<Rightarrow> Returns (False, task, p)
      | Some j \<Rightarrow>
          Returns (True, last (q (local_task_queues p ! j)),
            p\<lparr>local_task_queues := (local_task_queues p)
                 [j := (local_task_queues p ! j)\<lparr>q := butlast (q (local_task_queues p ! j))\<rparr>]\<rparr>))"
  using steal_from [OF assms, of 0 task]
  by (simp add: PopTaskFromOtherThreadQueue_def round_robin_after_def)

lemma PopTaskFromLocalQueue_eq:
  "PopTaskFromLocalQueue task me p =
     (case local_task_queue me of
        None \<Rightarrow> Returns (False, task, p)
      | Some k \<Rightarrow>
          if k < length (local_task_queues p) then
            (case q (local_task_queues p ! k) of
               [] \<Rightarrow> Returns (False, task, p)
             | t # rest \<Rightarrow>
                 Returns (True, t, p\<lparr>local_task_queues :=
                   (local_task_queues p)[k := (local_task_queues p ! k)\<lparr>q := rest\<rparr>]\<rparr>))
          else Undefined)"
  by (simp add: PopTaskFromLocalQueue_def TryPop_eq split: option.splits list.splits)

lemma PopTaskFromGlobalQueue_empty:
  assumes "LockedQueue_holds (global_task_queue p) []"
  shows "PopTaskFromGlobalQueue task p = Returns (False, task, p)"
proof -
  from assms obtain as t where r: "LockedQueue_repr (global_task_queue p) as t []"
    by (auto simp: LockedQueue_holds_def)
  with repr_lengths [OF r] have "LockedQueue_repr (global_task_queue p) [] t []" by simp
  from LockedQueue_pops_empty(2) [OF this] show ?thesis
    by (simp add: PopTaskFromGlobalQueue_def)
qed

lemma PopTaskFromGlobalQueue_nonempty:
  assumes "LockedQueue_holds (global_task_queue p) (t # gs)"
  shows "\<exists>g. LockedQueue_holds g gs \<and>
           PopTaskFromGlobalQueue task p = Returns (True, t, p\<lparr>global_task_queue := g\<rparr>)"
proof -
  from assms obtain as0 a where r0: "LockedQueue_repr (global_task_queue p) as0 a (t # gs)"
    by (auto simp: LockedQueue_holds_def)
  from repr_lengths [OF r0] obtain b bs where "as0 = b # bs" by (cases as0) auto
  with r0 have "LockedQueue_repr (global_task_queue p) (b # bs) a (t # gs)" by simp
  from LockedQueue_TryPop_out_nonempty [OF this, of task] obtain g where
    "LockedQueue_TryPop_out task (global_task_queue p) = Returns (True, t, g)"
    and "LockedQueue_repr g bs a gs"
    by blast
  then have "LockedQueue_holds g gs \<and>
      PopTaskFromGlobalQueue task p = Returns (True, t, p\<lparr>global_task_queue := g\<rparr>)"
    by (auto simp: PopTaskFromGlobalQueue_def LockedQueue_holds_def)
  then show ?thesis ..
qed


lemma mod_shift_le:
  fixes a b c n :: nat
  assumes "a \<le> b" "b < n" "(c + a) mod n = (c + b) mod n"
  shows "a = b"
proof -
  from assms(1) have le: "c + a \<le> c + b" by simp
  from assms(3) have "(c + b) mod n = (c + a) mod n" by simp
  then have "n dvd (c + b) - (c + a)"
    by (simp only: mod_eq_dvd_iff_nat [OF le])
  then have "n dvd b - a" by simp
  moreover from assms(2) have "b - a < n" by simp
  ultimately have "b - a = 0" by (meson dvd_imp_le not_less zero_less_iff_neq_zero)
  with assms(1) show ?thesis by simp
qed

lemma round_robin_inj:
  fixes i j n me :: nat
  assumes "i < n" "j < n" "(me + 1 + i) mod n = (me + 1 + j) mod n"
  shows "i = j"
proof (cases "i \<le> j")
  case True
  with assms show ?thesis by (intro mod_shift_le [of i j n "me + 1"]) simp_all
next
  case False
  then have "j \<le> i" by simp
  with assms have "j = i" by (intro mod_shift_le [of j i n "me + 1"]) simp_all
  then show ?thesis by simp
qed

lemma round_robin_after_perm:
  "distinct (round_robin_after me n) \<and> set (round_robin_after me n) = {0..<n}"
proof -
  let ?f = "\<lambda>i. (me + 1 + i) mod n"
  have inj: "inj_on ?f {0..<n}"
    by (rule inj_onI) (auto dest: round_robin_inj)
  then have d: "distinct (round_robin_after me n)"
    by (simp add: round_robin_after_def distinct_map)
  have sub: "?f ` {0..<n} \<subseteq> {0..<n}" by auto
  from inj have "card (?f ` {0..<n}) = card {0..<n}" by (rule card_image)
  with sub have "?f ` {0..<n} = {0..<n}" by (intro card_subset_eq) simp_all
  then have "set (round_robin_after me n) = {0..<n}"
    by (simp add: round_robin_after_def)
  with d show ?thesis ..
qed

lemma run_task_fresh:
  assumes "shared_state task < length (shared_states p)"
    and "shared_states p ! shared_state task = None"
  shows "run_task (Some task) p =
     Returns (p\<lparr>shared_states := (shared_states p)[shared_state task := Some (fn task ())]\<rparr>)"
  using assms by (simp add: run_task_def FunctionWrapper_call_def packaged_task_call_def)

lemma RunPendingTask_local:
  assumes "local_task_queue me = Some k" "k < length (local_task_queues p)"
    and "q (local_task_queues p ! k) = t # rest"
  shows "RunPendingTask me p =
     run_task t (p\<lparr>local_task_queues :=
       (local_task_queues p)[k := (local_task_queues p ! k)\<lparr>q := rest\<rparr>]\<rparr>)"
  using assms by (simp add: RunPendingTask_def PopTaskFromLocalQueue_eq)

lemma own_deque_empty:
  assumes "own_deque me p = []"
    and "\<forall>k. local_task_queue me = Some k \<longrightarrow> k < length (local_task_queues p)"
  shows "PopTaskFromLocalQueue task me p = Returns (False, task, p)"
  using assms by (auto simp: own_deque_def PopTaskFromLocalQueue_eq split: option.splits)

lemma RunPendingTask_global:
  assumes "own_deque me p = []"
    and "\<forall>k. local_task_queue me = Some k \<longrightarrow> k < length (local_task_queues p)"
    and "LockedQueue_holds (global_task_queue p) (t # gs)"
  shows "\<exists>g. LockedQueue_holds g gs \<and>
           RunPendingTask me p = run_task t (p\<lparr>global_task_queue := g\<rparr>)"
proof -
  from PopTaskFromGlobalQueue_nonempty [OF assms(3), of None] obtain g where
    "LockedQueue_holds g gs"
    and "PopTaskFromGlobalQueue None p = Returns (True, t, p\<lparr>global_task_queue := g\<rparr>)"
    by blast
  with own_deque_empty [OF assms(1,2), of None] show ?thesis
    by (auto simp: RunPendingTask_def)
qed

lemma RunPendingTask_steal:
  assumes "own_deque me p = []"
    and "\<forall>k. local_task_queue me = Some k \<longrightarrow> k < length (local_task_queues p)"
    and "LockedQueue_holds (global_task_queue p) []"
    and "my_index me + length (local_task_queues p) < 2 ^ 32"
  shows "RunPendingTask me p =
     (case find (\<lambda>j. q (local_task_queues p ! j) \<noteq> [])
             (round_robin_after (my_index me) (length (local_task_queues p))) of
        None \<Rightarrow> Returns (yield p)
      | Some j \<Rightarrow>
          run_task (last (q (local_task_queues p ! j)))
            (p\<lparr>local_task_queues := (local_task_queues p)
                 [j := (local_task_queues p ! j)\<lparr>q := butlast (q (local_task_queues p ! j))\<rparr>]\<rparr>))"
  using own_deque_empty [OF assms(1,2), of None]
    PopTaskFromGlobalQueue_empty [OF assms(3), of None]
    PopTaskFromOtherThreadQueue_eq [OF assms(4), of None]
  by (simp add: RunPendingTask_def split: option.splits)

lemma idle_yields:
  assumes "idle me p"
  shows "RunPendingTask me p = Returns (yield p)" and "idle me (yield p)"
proof -
  from assms have own: "own_deque me p = []"
    by (auto simp: idle_def own_deque_def split: option.splits)
  have "find (\<lambda>j. q (local_task_queues p ! j) \<noteq> [])
      (round_robin_after (my_index me) (length (local_task_queues p))) = None"
    using assms round_robin_after_perm [of "my_index me" "length (local_task_queues p)"]
    by (auto simp: find_None_iff idle_def)
  with assms own show "RunPendingTask me p = Returns (yield p)"
    by (simp add: RunPendingTask_steal idle_def)
  from assms show "idle me (yield p)" by (simp add: idle_def yield_def)
qed

lemma run_task_frame:
  "run_task t p = Returns p' \<Longrightarrow> done p' = done p \<and> threads p' = threads p"
  by (auto simp: run_task_def and_then_Returns_iff)

lemma PopTaskFromLocalQueue_frame:
  "PopTaskFromLocalQueue t me p = Returns (b, t', p') \<Longrightarrow> done p' = done p \<and> threads p' = threads p"
  by (auto simp: PopTaskFromLocalQueue_def and_then_Returns_iff split: option.splits if_splits)

lemma PopTaskFromGlobalQueue_frame:
  "PopTaskFromGlobalQueue t p = Returns (b, t', p') \<Longrightarrow> done p' = done p \<and> threads p' = threads p"
  by (auto simp: PopTaskFromGlobalQueue_def and_then_Returns_iff)

lemma PopTaskFromOtherThreadQueue_from_frame:
  "PopTaskFromOtherThreadQueue_from i t me p = Returns (b, t', p') \<Longrightarrow>
   done p' = done p \<and> threads p' = threads p"
proof (induction i t me p rule: PopTaskFromOtherThreadQueue_from.induct)
  case (1 i task me p)
  let ?qs = "local_task_queues p"
  let ?index = "steal_index (my_index me) i (length ?qs)"
  show ?case
  proof (cases "i < length ?qs")
    case False
    with "1.prems" show ?thesis by (subst (asm) PopTaskFromOtherThreadQueue_from.simps) simp
  next
    case True
    with "1.prems" obtain b1 t1 w where
      s: "WorkStealingQueue_TrySteal task (?qs ! ?index) = Returns (b1, t1, w)"
      and r: "(if b1 then Returns (True, t1, p\<lparr>local_task_queues := ?qs[?index := w]\<rparr>)
               else PopTaskFromOtherThreadQueue_from (i + 1) t1 me
                      (p\<lparr>local_task_queues := ?qs[?index := w]\<rparr>)) = Returns (b, t', p')"
      by (subst (asm) PopTaskFromOtherThreadQueue_from.simps)
        (auto simp: Let_def and_then_Returns_iff)
    show ?thesis
    proof (cases b1)
      case True
      with r show ?thesis by auto
    next
      case False
      with r have "PopTaskFromOtherThreadQueue_from (i + 1) t1 me
          (p\<lparr>local_task_queues := ?qs[?index := w]\<rparr>) = Returns (b, t', p')"
        by simp
      from "1.IH" [OF \<open>i < length ?qs\<close> refl s refl refl False this] show ?thesis by simp
    qed
  qed
qed

lemma RunPendingTask_frame:
  assumes "RunPendingTask me p = Returns p'"
  shows "done p' = done p \<and> threads p' = threads p"
proof -
  from assms obtain b1 t1 p1 where
    1: "PopTaskFromLocalQueue None me p = Returns (b1, t1, p1)"
    and r1: "(if b1 then run_task t1 p1
       else and_then (PopTaskFromGlobalQueue t1 p1) (\<lambda>(b2, t2, p2).
         if b2 then run_task t2 p2
         else and_then (PopTaskFromOtherThreadQueue t2 me p2) (\<lambda>(b3, t3, p3).
           if b3 then run_task t3 p3
           else Returns (yield p3)))) = Returns p'"
    by (auto simp: RunPendingTask_def and_then_Returns_iff)
  note f1 = PopTaskFromLocalQueue_frame [OF 1]
  show ?thesis
  proof (cases b1)
    case True
    with r1 run_task_frame [of t1 p1 p'] f1 show ?thesis by simp
  next
    case False
    with r1 obtain b2 t2 p2 where
      2: "PopTaskFromGlobalQueue t1 p1 = Returns (b2, t2, p2)"
      and r2: "(if b2 then run_task t2 p2
         else and_then (PopTaskFromOtherThreadQueue t2 me p2) (\<lambda>(b3, t3, p3).
           if b3 then run_task t3 p3
           else Returns (yield p3))) = Returns p'"
      by (auto simp: and_then_Returns_iff)
    note f2 = PopTaskFromGlobalQueue_frame [OF 2]
    show ?thesis
    proof (cases b2)
      case True
      with r2 run_task_frame [of t2 p2 p'] f1 f2 show ?thesis by simp
    next
      case False
      with r2 obtain b3 t3 p3 where
        3: "PopTaskFromOtherThreadQueue t2 me p2 = Returns (b3, t3, p3)"
        and r3: "(if b3 then run_task t3 p3 else Returns (yield p3)) = Returns p'"
        by (auto simp: and_then_Returns_iff)
      from 3 have f3: "done p3 = done p2 \<and> threads p3 = threads p2"
        unfolding PopTaskFromOtherThreadQueue_def
        by (rule PopTaskFromOtherThreadQueue_from_frame)
      show ?thesis
      proof (cases b3)
        case True
        with r3 run_task_frame [of t3 p3 p'] f1 f2 f3 show ?thesis by simp
      next
        case False
        with r3 f1 f2 f3 show ?thesis by (auto simp: yield_def)
      qed
    qed
  qed
qed

lemma Worker_step_not_Blocks: "Worker_step w p \<noteq> Blocks"
proof (cases w)
  case (In_body me)
  with RunPendingTask_not_Blocks [of me p] show ?thesis
    by (cases "RunPendingTask me p") (simp_all add: Worker_step_def)
qed (simp_all add: Worker_step_def)

lemma Worker_step_frame:
  assumes "Worker_step w p = Returns (w', p')"
  shows "done p' = done p \<and> threads p' = threads p"
proof (cases w)
  case (In_body me)
  with assms obtain p1 where "RunPendingTask me p = Returns p1" and "p' = p1"
    by (cases "RunPendingTask me p") (simp_all add: Worker_step_def)
  with RunPendingTask_frame show ?thesis by blast
qed (use assms in \<open>auto simp: Worker_step_def split: if_splits\<close>)

lemma Worker_step_towards_return:
  assumes "Worker_step w p = Returns (w', p')" and "done p"
  shows "steps_to_return w' \<le> steps_to_return w - 1"
proof (cases w)
  case (In_body me)
  with assms show ?thesis
    by (cases "RunPendingTask me p") (auto simp: Worker_step_def)
qed (use assms in \<open>auto simp: Worker_step_def split: if_splits\<close>)

lemma Worker_step_stays:
  assumes "Worker_step w p = Returns (w', p')" and "\<not> done p" and "w \<noteq> Returned"
  shows "w' \<noteq> Returned"
proof (cases w)
  case (In_body me)
  with assms show ?thesis
    by (cases "RunPendingTask me p") (auto simp: Worker_step_def)
qed (use assms in \<open>auto simp: Worker_step_def split: if_splits\<close>)

lemma destructor_step_eq:
  "destructor_step s =
     (case destructor s of
        Not_begun \<Rightarrow> Returns (s\<lparr>pool := (pool s)\<lparr>done := True\<rparr>, destructor := Joining 0\<rparr>)
      | Joining i \<Rightarrow>
          if i < length (threads (pool s)) then
            (if joinable (threads (pool s) ! i) then
               (if workers s ! i = Returned then
                  Returns (s\<lparr>pool := (pool s)\<lparr>threads := (threads (pool s))[i := Joined]\<rparr>,
                            destructor := Joining (i + 1)\<rparr>)
                else Blocks)
             else Returns (s\<lparr>destructor := Joining (i + 1)\<rparr>))
          else Returns (s\<lparr>destructor := Destroyed\<rparr>)
      | Destroyed \<Rightarrow> Returns s)"
  by (simp add: destructor_step_def JoinThreads_dtor_step_def join_def ThreadPool_dtor_def
      split: destructor.splits)

lemma step_Worker_runs:
  assumes "step (Worker_runs i) s = Returns s1"
  shows "(\<not> i < length (workers s) \<and> s1 = s) \<or>
         (i < length (workers s) \<and>
          (\<exists>w' p'. Worker_step (workers s ! i) (pool s) = Returns (w', p') \<and>
                    s1 = s\<lparr>pool := p', workers := (workers s)[i := w']\<rparr>))"
proof (cases "i < length (workers s)")
  case True
  with assms obtain x where w: "Worker_step (workers s ! i) (pool s) = Returns x"
    and s1: "(case x of (w, p) \<Rightarrow> Returns (s\<lparr>pool := p, workers := (workers s)[i := w]\<rparr>))
      = Returns s1"
    by (auto simp: step_def and_then_Returns_iff)
  obtain w' p' where x: "x = (w', p')" by (cases x)
  with w s1 True show ?thesis by auto
next
  case False
  with assms show ?thesis by (simp add: step_def)
qed

lemma step_Blocks: "step e s = Blocks \<Longrightarrow> e = Destructor_runs"
  by (cases e) (auto simp: step_def and_then_Blocks_iff Worker_step_not_Blocks split: if_splits)

lemma destructor_step_frame:
  assumes "destructor_step s = Returns s1"
  shows "workers s1 = workers s \<and> (done (pool s) \<longrightarrow> done (pool s1)) \<and>
         length (threads (pool s1)) = length (threads (pool s)) \<and>
         global_task_queue (pool s1) = global_task_queue (pool s) \<and>
         local_task_queues (pool s1) = local_task_queues (pool s)"
  using assms by (auto simp: destructor_step_eq split: destructor.splits if_splits)

lemma step_done:
  assumes "done (pool s)" and "step e s = Returns s1"
  shows "done (pool s1) \<and> length (workers s1) = length (workers s) \<and>
         (\<forall>i<length (workers s).
            steps_to_return (workers s1 ! i)
              \<le> steps_to_return (workers s ! i) - (if e = Worker_runs i then 1 else 0))"
proof (cases e)
  case Destructor_runs
  with assms destructor_step_frame [of s s1] show ?thesis by (simp add: step_def)
next
  case (Worker_runs j)
  from step_Worker_runs [OF assms(2) [unfolded Worker_runs]] show ?thesis
  proof (elim disjE conjE exE)
    assume "s1 = s" "\<not> j < length (workers s)"
    with assms(1) Worker_runs show ?thesis by auto
  next
    fix w' p'
    assume j: "j < length (workers s)"
      and w: "Worker_step (workers s ! j) (pool s) = Returns (w', p')"
      and s1: "s1 = s\<lparr>pool := p', workers := (workers s)[j := w']\<rparr>"
    from Worker_step_frame [OF w] assms(1) have "done p'" by simp
    moreover from Worker_step_towards_return [OF w assms(1)]
    have "steps_to_return w' \<le> steps_to_return (workers s ! j) - 1" .
    ultimately show ?thesis using s1 j Worker_runs by (auto simp: nth_list_update)
  qed
qed

lemma run_schedule_done:
  "done (pool s) \<Longrightarrow> run_schedule es s = Returns s' \<Longrightarrow>
   done (pool s') \<and> length (workers s') = length (workers s) \<and>
   (\<forall>i<length (workers s).
      steps_to_return (workers s' ! i)
        \<le> steps_to_return (workers s ! i) - count_list es (Worker_runs i))"
proof (induction es arbitrary: s)
  case Nil
  then show ?case by simp
next
  case (Cons e es)
  show ?case
  proof (cases "step e s")
    case (Returns s1)
    with Cons.prems(2) have r: "run_schedule es s1 = Returns s'" by simp
    note 1 = step_done [OF Cons.prems(1) Returns]
    from 1 have d1: "done (pool s1)" by simp
    note 2 = Cons.IH [OF d1 r]
    have "steps_to_return (workers s' ! i)
        \<le> steps_to_return (workers s ! i) - count_list (e # es) (Worker_runs i)"
      if i: "i < length (workers s)" for i
    proof -
      from 1 i have a: "steps_to_return (workers s1 ! i)
          \<le> steps_to_return (workers s ! i) - (if e = Worker_runs i then 1 else 0)"
        by blast
      from 1 2 i have b: "steps_to_return (workers s' ! i)
          \<le> steps_to_return (workers s1 ! i) - count_list es (Worker_runs i)"
        by simp
      from a b show ?thesis by auto
    qed
    with 1 2 show ?thesis by simp
  next
    case Blocks
    with Cons.prems(2) have r: "run_schedule es s = Returns s'" by simp
    from step_Blocks [OF Blocks] have "e = Destructor_runs" .
    with Cons.IH [OF Cons.prems(1) r] show ?thesis by simp
  qed (use Cons.prems(2) in simp_all)
qed

lemma step_clear:
  assumes "\<not> done (pool s)" and "e \<noteq> Destructor_runs" and "step e s = Returns s1"
  shows "\<not> done (pool s1) \<and> length (workers s1) = length (workers s) \<and>
         destructor s1 = destructor s \<and> threads (pool s1) = threads (pool s) \<and>
         (\<forall>i<length (workers s). workers s ! i \<noteq> Returned \<longrightarrow> workers s1 ! i \<noteq> Returned)"
proof -
  from assms(2) obtain j where e: "e = Worker_runs j" by (cases e) auto
  from step_Worker_runs [OF assms(3) [unfolded e]] show ?thesis
  proof (elim disjE conjE exE)
    assume "s1 = s"
    with assms(1) show ?thesis by simp
  next
    fix w' p'
    assume j: "j < length (workers s)"
      and w: "Worker_step (workers s ! j) (pool s) = Returns (w', p')"
      and s1: "s1 = s\<lparr>pool := p', workers := (workers s)[j := w']\<rparr>"
    from Worker_step_frame [OF w] assms(1) have "\<not> done p'" "threads p' = threads (pool s)"
      by simp_all
    moreover have "w' \<noteq> Returned" if "workers s ! j \<noteq> Returned"
      using Worker_step_stays [OF w assms(1) that] .
    ultimately show ?thesis using s1 j by (auto simp: nth_list_update)
  qed
qed

lemma run_schedule_clear:
  "\<not> done (pool s) \<Longrightarrow> Destructor_runs \<notin> set es \<Longrightarrow> run_schedule es s = Returns s' \<Longrightarrow>
   \<not> done (pool s') \<and> length (workers s') = length (workers s) \<and>
   destructor s' = destructor s \<and> threads (pool s') = threads (pool s) \<and>
   (\<forall>i<length (workers s). workers s ! i \<noteq> Returned \<longrightarrow> workers s' ! i \<noteq> Returned)"
proof (induction es arbitrary: s)
  case Nil
  then show ?case by simp
next
  case (Cons e es)
  from Cons.prems(2) have e: "e \<noteq> Destructor_runs" and es: "Destructor_runs \<notin> set es"
    by auto
  show ?case
  proof (cases "step e s")
    case (Returns s1)
    with Cons.prems(3) have r: "run_schedule es s1 = Returns s'" by simp
    note 1 = step_clear [OF Cons.prems(1) e Returns]
    from 1 have "\<not> done (pool s1)" by simp
    from Cons.IH [OF this es r] 1 show ?thesis by auto
  next
    case Blocks
    with step_Blocks e show ?thesis by blast
  qed (use Cons.prems(3) in simp_all)
qed

lemma steps_to_return_0: "steps_to_return w = 0 \<longleftrightarrow> w = Returned"
  by (cases w) simp_all

lemma steps_to_return_le: "steps_to_return w \<le> 2"
  by (cases w) simp_all

lemma shutting_down_step:
  assumes "shutting_down s" and "step e s = Returns s1"
  shows "shutting_down s1"
proof (cases e)
  case (Worker_runs j)
  from step_Worker_runs [OF assms(2) [unfolded Worker_runs]] show ?thesis
  proof (elim disjE conjE exE)
    assume "s1 = s"
    with assms(1) show ?thesis by simp
  next
    fix w' p'
    assume w: "Worker_step (workers s ! j) (pool s) = Returns (w', p')"
      and s1: "s1 = s\<lparr>pool := p', workers := (workers s)[j := w']\<rparr>"
    from Worker_step_frame [OF w] assms(1) s1 show ?thesis
      by (auto simp: shutting_down_def split: destructor.splits)
  qed
next
  case Destructor_runs
  with assms(2) have d: "destructor_step s = Returns s1" by (simp add: step_def)
  show ?thesis
  proof (cases "destructor s")
    case Not_begun
    with assms(1) show ?thesis by (simp add: shutting_down_def)
  next
    case Destroyed
    with d assms(1) show ?thesis by (auto simp: destructor_step_eq)
  next
    case (Joining i)
    let ?ths = "threads (pool s)"
    from assms(1) Joining have dn: "done (pool s)" and len: "length (workers s) = length ?ths"
      and i: "i \<le> length ?ths" and before: "\<forall>k<i. ?ths ! k = Joined"
      by (simp_all add: shutting_down_def)
    show ?thesis
    proof (cases "i < length ?ths")
      case False
      with i have "i = length ?ths" by simp
      with d Joining False dn len before show ?thesis
        by (auto simp: destructor_step_eq shutting_down_def)
    next
      case True
      show ?thesis
      proof (cases "joinable (?ths ! i)")
        case False
        then have "?ths ! i = Joined" by (simp add: joinable_def)
        with before have "\<forall>k<i + 1. ?ths ! k = Joined" by (auto simp: less_Suc_eq)
        with d Joining True False dn len show ?thesis
          by (auto simp: destructor_step_eq shutting_down_def)
      next
        case j: True
        with d Joining True have r: "workers s ! i = Returned"
          and s1: "s1 = s\<lparr>pool := (pool s)\<lparr>threads := ?ths[i := Joined]\<rparr>,
                          destructor := Joining (i + 1)\<rparr>"
          by (auto simp: destructor_step_eq split: if_splits)
        from before True have "\<forall>k<i + 1. ?ths[i := Joined] ! k = Joined"
          by (auto simp: less_Suc_eq nth_list_update)
        with s1 True dn len show ?thesis by (simp add: shutting_down_def)
      qed
    qed
  qed
qed

lemma shutting_down_run:
  "shutting_down s \<Longrightarrow> run_schedule es s = Returns s' \<Longrightarrow> shutting_down s'"
proof (induction es arbitrary: s)
  case Nil
  then show ?case by simp
next
  case (Cons e es)
  show ?case
  proof (cases "step e s")
    case (Returns s1)
    with Cons.prems(2) have "run_schedule es s1 = Returns s'" by simp
    from Cons.IH [OF shutting_down_step [OF Cons.prems(1) Returns] this] show ?thesis .
  next
    case Blocks
    with Cons.prems(2) have "run_schedule es s = Returns s'" by simp
    from Cons.IH [OF Cons.prems(1) this] show ?thesis .
  qed (use Cons.prems(2) in simp_all)
qed

lemma destructor_finishes:
  "shutting_down s \<Longrightarrow> \<forall>i<length (workers s). workers s ! i = Returned \<Longrightarrow>
   (case destructor s of Joining i \<Rightarrow> length (threads (pool s)) - i < m | _ \<Rightarrow> True) \<Longrightarrow>
   run_schedule (replicate m Destructor_runs) s =
     Returns (s\<lparr>pool := (pool s)\<lparr>threads := replicate (length (threads (pool s))) Joined\<rparr>,
               destructor := Destroyed\<rparr>)"
proof (induction m arbitrary: s)
  case 0
  let ?ths = "threads (pool s)"
  from "0.prems"(1,3) have d: "destructor s = Destroyed"
    by (cases "destructor s") (simp_all add: shutting_down_def)
  with "0.prems"(1) have "\<forall>k<length ?ths. ?ths ! k = Joined"
    by (simp add: shutting_down_def)
  then have "?ths = replicate (length ?ths) Joined"
    by (intro nth_equalityI) simp_all
  then have "(pool s)\<lparr>threads := replicate (length ?ths) Joined\<rparr> = pool s" by simp
  with d show ?case by simp
next
  case (Suc m)
  let ?ths = "threads (pool s)"
  from Suc.prems(1) have len: "length (workers s) = length ?ths"
    by (simp add: shutting_down_def)
  show ?case
  proof (cases "destructor s")
    case Not_begun
    with Suc.prems(1) show ?thesis by (simp add: shutting_down_def)
  next
    case Destroyed
    then have st: "step Destructor_runs s = Returns s" by (simp add: step_def destructor_step_eq)
    from Suc.IH [OF Suc.prems(1,2)] Destroyed st show ?thesis by simp
  next
    case (Joining i)
    from Suc.prems(1) Joining have i: "i \<le> length ?ths"
      and before: "\<forall>k<i. ?ths ! k = Joined"
      by (simp_all add: shutting_down_def)
    show ?thesis
    proof (cases "i < length ?ths")
      case False
      let ?s1 = "s\<lparr>destructor := Destroyed\<rparr>"
      from Joining False have st: "step Destructor_runs s = Returns ?s1"
        by (simp add: step_def destructor_step_eq)
      from shutting_down_step [OF Suc.prems(1) st] have sd: "shutting_down ?s1" .
      from Suc.IH [OF sd] Suc.prems(2) st show ?thesis by simp
    next
      case True
      let ?s1 = "s\<lparr>pool := (pool s)\<lparr>threads := ?ths[i := Joined]\<rparr>, destructor := Joining (i + 1)\<rparr>"
      from True len Suc.prems(2) have r: "workers s ! i = Returned" by simp
      have st: "step Destructor_runs s = Returns ?s1"
      proof (cases "joinable (?ths ! i)")
        case True
        with Joining \<open>i < length ?ths\<close> r show ?thesis
          by (simp add: step_def destructor_step_eq)
      next
        case False
        then have "?ths ! i = Joined" by (simp add: joinable_def)
        then have "?ths[i := Joined] = ?ths" by (metis list_update_id)
        then have "(pool s)\<lparr>threads := ?ths[i := Joined]\<rparr> = pool s" by simp
        with Joining \<open>i < length ?ths\<close> False show ?thesis
          by (simp add: step_def destructor_step_eq)
      qed
      from shutting_down_step [OF Suc.prems(1) st] have sd: "shutting_down ?s1" .
      from Suc.prems(3) Joining True have "length (threads (pool ?s1)) - (i + 1) < m" by simp
      with Suc.IH [OF sd] Suc.prems(2) st show ?thesis by simp
    qed
  qed
qed

lemma destruction_completes:
  assumes nb: "destructor s = Not_begun"
    and len: "length (workers s) = length (threads (pool s))"
    and turns: "\<forall>i<length (workers s). 2 \<le> count_list es (Worker_runs i)"
    and run: "run_schedule (Destructor_runs # es) s = Returns s1"
  shows "run_schedule (replicate (Suc (length (threads (pool s)))) Destructor_runs) s1 =
           Returns (s1\<lparr>pool := (pool s1)\<lparr>threads := replicate (length (threads (pool s))) Joined\<rparr>,
                      destructor := Destroyed\<rparr>)"
proof -
  let ?s0 = "s\<lparr>pool := (pool s)\<lparr>done := True\<rparr>, destructor := Joining 0\<rparr>"
  from nb have st: "step Destructor_runs s = Returns ?s0"
    by (simp add: step_def destructor_step_eq)
  with run have r: "run_schedule es ?s0 = Returns s1" by simp
  from len have sd0: "shutting_down ?s0" by (simp add: shutting_down_def)
  from shutting_down_run [OF sd0 r] have sd1: "shutting_down s1" .
  have d0: "done (pool ?s0)" by simp
  note rd = run_schedule_done [OF d0 r]
  from rd have l1: "length (workers s1) = length (workers s)" by simp
  have ret: "workers s1 ! i = Returned" if "i < length (workers s1)" for i
  proof -
    from that l1 have i: "i < length (workers ?s0)" by simp
    with rd have "steps_to_return (workers s1 ! i)
        \<le> steps_to_return (workers ?s0 ! i) - count_list es (Worker_runs i)"
      by blast
    moreover from turns that l1 have "2 \<le> count_list es (Worker_runs i)" by simp
    moreover have "steps_to_return (workers ?s0 ! i) \<le> 2" by (rule steps_to_return_le)
    ultimately have "steps_to_return (workers s1 ! i) = 0" by arith
    then show ?thesis by (simp add: steps_to_return_0)
  qed
  from sd1 l1 len have n: "length (threads (pool s1)) = length (threads (pool s))"
    by (simp add: shutting_down_def)
  have "case destructor s1 of
          Joining i \<Rightarrow> length (threads (pool s1)) - i < Suc (length (threads (pool s)))
        | _ \<Rightarrow> True"
    using n by (cases "destructor s1") simp_all
  from destructor_finishes [OF sd1 _ this] ret n show ?thesis by simp
qed

lemma list_all_update: "list_all P xs \<Longrightarrow> P x \<Longrightarrow> list_all P (xs[i := x])"
  by (induction xs arbitrary: i) (auto split: nat.splits)

lemma attached_cong:
  "local_task_queues p' = local_task_queues p \<Longrightarrow> attached w p' = attached w p"
  by (cases w) (simp_all add: attached_def)

lemma calm_yields:
  assumes "calm s" and "j < length (workers s)" and "workers s ! j = In_body me"
  shows "RunPendingTask me (pool s) = Returns (yield (pool s))"
proof -
  let ?n = "length (local_task_queues (pool s))"
  from assms have "attached (In_body me) (pool s)"
    by (auto simp: calm_def list_all_length)
  then have me: "my_index me < ?n" "local_task_queue me = Some (my_index me)"
    by (simp_all add: attached_def)
  from assms(1) have "2 * ?n \<le> 2 ^ 32" by (simp add: calm_def)
  with me(1) have "my_index me + ?n < 2 ^ 32" by simp
  with assms(1) me have "idle me (pool s)"
    by (simp add: idle_def calm_def list_all_iff)
  then show ?thesis by (rule idle_yields(1))
qed

lemma calm_step:
  assumes "calm s"
  shows "(\<exists>s1. step e s = Returns s1 \<and> calm s1) \<or> step e s = Blocks"
proof (cases e)
  case Destructor_runs
  have "(\<exists>s1. destructor_step s = Returns s1) \<or> destructor_step s = Blocks"
    by (simp add: destructor_step_eq split: destructor.splits)
  then show ?thesis
  proof
    assume "\<exists>s1. destructor_step s = Returns s1"
    then obtain s1 where r: "destructor_step s = Returns s1" ..
    note f = destructor_step_frame [OF r]
    from f have "attached w (pool s1) = attached w (pool s)" for w
      by (intro attached_cong) simp
    with f assms have "calm s1" by (simp add: calm_def)
    with r Destructor_runs show ?thesis by (simp add: step_def)
  next
    assume "destructor_step s = Blocks"
    with Destructor_runs show ?thesis by (simp add: step_def)
  qed
next
  case (Worker_runs i)
  let ?p = "pool s" and ?n = "length (local_task_queues (pool s))"
  show ?thesis
  proof (cases "i < length (workers s)")
    case False
    with assms Worker_runs show ?thesis by (simp add: step_def)
  next
    case True
    with assms have att: "attached (workers s ! i) ?p"
      by (simp add: calm_def list_all_length)
    have "\<exists>w' p'. Worker_step (workers s ! i) ?p = Returns (w', p') \<and>
        attached w' p' \<and> global_task_queue p' = global_task_queue ?p \<and>
        local_task_queues p' = local_task_queues ?p"
    proof (cases "workers s ! i")
      case (Entered k)
      with att show ?thesis by (simp add: Worker_step_def attached_def)
    next
      case (At_condition me)
      with att show ?thesis by (simp add: Worker_step_def attached_def)
    next
      case Returned
      then show ?thesis by (simp add: Worker_step_def attached_def)
    next
      case (In_body me)
      with att have me: "my_index me < ?n" "local_task_queue me = Some (my_index me)"
        by (simp_all add: attached_def)
      from assms have "2 * ?n \<le> 2 ^ 32" by (simp add: calm_def)
      with me(1) have "my_index me + ?n < 2 ^ 32" by simp
      with assms me have "idle me ?p"
        by (simp add: idle_def calm_def list_all_iff)
      from idle_yields(1) [OF this]
      have "Worker_step (In_body me) ?p = Returns (At_condition me, yield ?p)"
        by (simp add: Worker_step_def)
      moreover from me have "attached (At_condition me) (yield ?p)"
        by (simp add: attached_def yield_def)
      moreover have "global_task_queue (yield ?p) = global_task_queue ?p"
        and "local_task_queues (yield ?p) = local_task_queues ?p"
        by (simp_all add: yield_def)
      ultimately show ?thesis unfolding In_body by blast
    qed
    then obtain w' p' where w: "Worker_step (workers s ! i) ?p = Returns (w', p')"
      and a: "attached w' p'" and g: "global_task_queue p' = global_task_queue ?p"
      and l: "local_task_queues p' = local_task_queues ?p"
      by blast
    let ?s1 = "s\<lparr>pool := p', workers := (workers s)[i := w']\<rparr>"
    from l have "attached w p' = attached w ?p" for w
      by (rule attached_cong)
    with assms have "list_all (\<lambda>w. attached w p') (workers s)"
      by (simp add: calm_def)
    with a have "list_all (\<lambda>w. attached w p') ((workers s)[i := w'])"
      by (intro list_all_update)
    with assms g l have "calm ?s1" by (simp add: calm_def)
    moreover from w True Worker_runs have "step e s = Returns ?s1" by (simp add: step_def)
    ultimately show ?thesis by blast
  qed
qed

lemma calm_run: "calm s \<Longrightarrow> \<exists>s'. run_schedule es s = Returns s' \<and> calm s'"
proof (induction es arbitrary: s)
  case Nil
  then show ?case by simp
next
  case (Cons e es)
  from calm_step [OF Cons.prems, of e] show ?case
  proof
    assume "\<exists>s1. step e s = Returns s1 \<and> calm s1"
    then obtain s1 where "step e s = Returns s1" "calm s1" by blast
    with Cons.IH [OF this(2)] show ?thesis by simp
  next
    assume "step e s = Blocks"
    with Cons.IH [OF Cons.prems] show ?thesis by simp
  qed
qed

section \<open>Claims about the thread pool\<close>

text \<open>
  C5. One call of RunPendingTask on a pool whose global queue is well formed (it holds the
  tasks \<open>gs\<close>), by a thread whose deque pointer, if set, points into the pool, with fewer
  than \<open>2 ^ 32\<close> for the caller's index plus the number of deques (no wrap-around of the
  \<^verbatim>\<open>unsigned\<close> index). (1) If the caller's own deque has a task, the task at its front is
  taken and called, and nothing else is touched. (2) Otherwise, if the global queue has a
  task, its oldest task is taken and called. (3) Otherwise the deques are tried in the
  order \<open>round_robin_after\<close> of the caller's index, which lists every deque once starting
  just after the caller's; the back of the first non-empty one, which is not the caller's
  own, is taken and called. In each case exactly this one task is called:
  calling a task whose shared state is not ready stores the callable's result there.
  (4) If all deques are empty as well, no task is called and the only effect is one yield.
\<close>

theorem RunPendingTask_local_then_global_then_steal:
  assumes "LockedQueue_holds (global_task_queue p) gs"
    and "\<forall>k. local_task_queue me = Some k \<longrightarrow> k < length (local_task_queues p)"
    and "my_index me + length (local_task_queues p) < 2 ^ 32"
  shows
    "(local_task_queue me = Some k \<and> q (local_task_queues p ! k) = t # rest \<longrightarrow>
        RunPendingTask me p =
          run_task t (p\<lparr>local_task_queues :=
            (local_task_queues p)[k := (local_task_queues p ! k)\<lparr>q := rest\<rparr>]\<rparr>))
     \<and> (own_deque me p = [] \<and> gs = t # gs' \<longrightarrow>
        (\<exists>g. LockedQueue_holds g gs' \<and>
              RunPendingTask me p = run_task t (p\<lparr>global_task_queue := g\<rparr>)))
     \<and> (own_deque me p = [] \<and> gs = [] \<and>
        find (\<lambda>j. q (local_task_queues p ! j) \<noteq> [])
          (round_robin_after (my_index me) (length (local_task_queues p))) = Some j \<longrightarrow>
        local_task_queue me \<noteq> Some j \<and>
        RunPendingTask me p =
          run_task (last (q (local_task_queues p ! j)))
            (p\<lparr>local_task_queues := (local_task_queues p)
                 [j := (local_task_queues p ! j)\<lparr>q := butlast (q (local_task_queues p ! j))\<rparr>]\<rparr>))
     \<and> (own_deque me p = [] \<and> gs = [] \<and>
        find (\<lambda>j. q (local_task_queues p ! j) \<noteq> [])
          (round_robin_after (my_index me) (length (local_task_queues p))) = None \<longrightarrow>
        RunPendingTask me p = Returns (p\<lparr>yields := Suc (yields p)\<rparr>))
     \<and> distinct (round_robin_after (my_index me) (length (local_task_queues p)))
     \<and> set (round_robin_after (my_index me) (length (local_task_queues p)))
         = {0..<length (local_task_queues p)}
     \<and> (shared_state task < length (shared_states p) \<and>
        shared_states p ! shared_state task = None \<longrightarrow>
        run_task (Some task) p =
          Returns (p\<lparr>shared_states :=
            (shared_states p)[shared_state task := Some (fn task ())]\<rparr>))"
proof (intro conjI impI)
  assume "local_task_queue me = Some k \<and> q (local_task_queues p ! k) = t # rest"
  with assms(2) show "RunPendingTask me p =
          run_task t (p\<lparr>local_task_queues :=
            (local_task_queues p)[k := (local_task_queues p ! k)\<lparr>q := rest\<rparr>]\<rparr>)"
    by (intro RunPendingTask_local) simp_all
next
  assume "own_deque me p = [] \<and> gs = t # gs'"
  with assms(1,2) show "\<exists>g. LockedQueue_holds g gs' \<and>
              RunPendingTask me p = run_task t (p\<lparr>global_task_queue := g\<rparr>)"
    by (intro RunPendingTask_global) simp_all
next
  assume a: "own_deque me p = [] \<and> gs = [] \<and>
        find (\<lambda>j. q (local_task_queues p ! j) \<noteq> [])
          (round_robin_after (my_index me) (length (local_task_queues p))) = Some j"
  then have "q (local_task_queues p ! j) \<noteq> []"
    by (auto simp: find_Some_iff)
  with a show "local_task_queue me \<noteq> Some j"
    by (auto simp: own_deque_def)
  from a assms show "RunPendingTask me p =
          run_task (last (q (local_task_queues p ! j)))
            (p\<lparr>local_task_queues := (local_task_queues p)
                 [j := (local_task_queues p ! j)\<lparr>q := butlast (q (local_task_queues p ! j))\<rparr>]\<rparr>)"
    by (simp add: RunPendingTask_steal)
next
  assume a: "own_deque me p = [] \<and> gs = [] \<and>
        find (\<lambda>j. q (local_task_queues p ! j) \<noteq> [])
          (round_robin_after (my_index me) (length (local_task_queues p))) = None"
  with assms show "RunPendingTask me p = Returns (p\<lparr>yields := Suc (yields p)\<rparr>)"
    by (simp add: RunPendingTask_steal yield_def)
next
  assume "shared_state task < length (shared_states p) \<and>
        shared_states p ! shared_state task = None"
  then show "run_task (Some task) p =
          Returns (p\<lparr>shared_states :=
            (shared_states p)[shared_state task := Some (fn task ())]\<rparr>)"
    by (simp add: run_task_fresh)
qed (simp_all add: round_robin_after_perm)


text \<open>
  Worker 0 of a pool of three: with B and A in its own deque it runs B; with only the
  global queue holding A it runs A; with B and A in deque 2 it steals A, after deque 1;
  with nothing anywhere it yields once.
\<close>

theorem RunPendingTask_local_then_global_then_steal_witness:
  "RunPendingTask \<lparr>local_task_queue = Some 0, my_index = 0\<rparr>
       (\<lparr>done = False, global_task_queue = \<lparr>store = [Some \<lparr>data = None, nxt = None\<rparr>], head = Some 0, tail = Some 0\<rparr>,
        local_task_queues = [\<lparr>q = [Some \<lparr>fn = \<lambda>_. 20, shared_state = 1\<rparr>, Some \<lparr>fn = \<lambda>_. 10, shared_state = 0\<rparr>]\<rparr>, \<lparr>q = []\<rparr>, \<lparr>q = []\<rparr>],
        threads = [Thread 0, Thread 1, Thread 2], shared_states = [None, None], yields = 0\<rparr> :: nat ThreadPool)
     = Returns
       \<lparr>done = False, global_task_queue = \<lparr>store = [Some \<lparr>data = None, nxt = None\<rparr>], head = Some 0, tail = Some 0\<rparr>,
        local_task_queues = [\<lparr>q = [Some \<lparr>fn = \<lambda>_. 10, shared_state = 0\<rparr>]\<rparr>, \<lparr>q = []\<rparr>, \<lparr>q = []\<rparr>],
        threads = [Thread 0, Thread 1, Thread 2], shared_states = [None, Some 20], yields = 0\<rparr>
   \<and> (\<exists>g. LockedQueue_holds g [] \<and>
          RunPendingTask \<lparr>local_task_queue = Some 0, my_index = 0\<rparr>
            (\<lparr>done = False, global_task_queue = \<lparr>store = [Some \<lparr>data = Some (Some \<lparr>fn = \<lambda>_. 10, shared_state = 0\<rparr>), nxt = Some 1\<rparr>, Some \<lparr>data = None, nxt = None\<rparr>], head = Some 0, tail = Some 1\<rparr>,
        local_task_queues = [\<lparr>q = []\<rparr>, \<lparr>q = []\<rparr>, \<lparr>q = []\<rparr>],
        threads = [Thread 0, Thread 1, Thread 2], shared_states = [None, None], yields = 0\<rparr> :: nat ThreadPool)
          = Returns ((\<lparr>done = False, global_task_queue = \<lparr>store = [Some \<lparr>data = None, nxt = None\<rparr>], head = Some 0, tail = Some 0\<rparr>,
        local_task_queues = [\<lparr>q = []\<rparr>, \<lparr>q = []\<rparr>, \<lparr>q = []\<rparr>],
        threads = [Thread 0, Thread 1, Thread 2], shared_states = [None, None], yields = 0\<rparr> :: nat ThreadPool)
              \<lparr>global_task_queue := g, shared_states := [Some 10, None]\<rparr>))
   \<and> round_robin_after 0 3 = [1, 2, 0]
   \<and> RunPendingTask \<lparr>local_task_queue = Some 0, my_index = 0\<rparr>
       (\<lparr>done = False, global_task_queue = \<lparr>store = [Some \<lparr>data = None, nxt = None\<rparr>], head = Some 0, tail = Some 0\<rparr>,
        local_task_queues = [\<lparr>q = []\<rparr>, \<lparr>q = []\<rparr>, \<lparr>q = [Some \<lparr>fn = \<lambda>_. 20, shared_state = 1\<rparr>, Some \<lparr>fn = \<lambda>_. 10, shared_state = 0\<rparr>]\<rparr>],
        threads = [Thread 0, Thread 1, Thread 2], shared_states = [None, None], yields = 0\<rparr> :: nat ThreadPool)
     = Returns
       \<lparr>done = False, global_task_queue = \<lparr>store = [Some \<lparr>data = None, nxt = None\<rparr>], head = Some 0, tail = Some 0\<rparr>,
        local_task_queues = [\<lparr>q = []\<rparr>, \<lparr>q = []\<rparr>, \<lparr>q = [Some \<lparr>fn = \<lambda>_. 20, shared_state = 1\<rparr>]\<rparr>],
        threads = [Thread 0, Thread 1, Thread 2], shared_states = [Some 10, None], yields = 0\<rparr>
   \<and> RunPendingTask \<lparr>local_task_queue = Some 0, my_index = 0\<rparr>
       (\<lparr>done = False, global_task_queue = \<lparr>store = [Some \<lparr>data = None, nxt = None\<rparr>], head = Some 0, tail = Some 0\<rparr>,
        local_task_queues = [\<lparr>q = []\<rparr>, \<lparr>q = []\<rparr>, \<lparr>q = []\<rparr>],
        threads = [Thread 0, Thread 1, Thread 2], shared_states = [None, None], yields = 0\<rparr> :: nat ThreadPool)
     = Returns
       \<lparr>done = False, global_task_queue = \<lparr>store = [Some \<lparr>data = None, nxt = None\<rparr>], head = Some 0, tail = Some 0\<rparr>,
        local_task_queues = [\<lparr>q = []\<rparr>, \<lparr>q = []\<rparr>, \<lparr>q = []\<rparr>],
        threads = [Thread 0, Thread 1, Thread 2], shared_states = [None, None], yields = 1\<rparr>"
proof -
  have h0: "LockedQueue_holds
      (\<lparr>store = [Some \<lparr>data = None, nxt = None\<rparr>], head = Some 0, tail = Some 0\<rparr> :: nat FunctionWrapper LockedQueue) []"
    by (rule LockedQueue_new_holds(2))
  have "LockedQueue_repr
      (\<lparr>store = [Some \<lparr>data = Some (Some \<lparr>fn = \<lambda>_. 10, shared_state = 0\<rparr>), nxt = Some 1\<rparr>, Some \<lparr>data = None, nxt = None\<rparr>], head = Some 0, tail = Some 1\<rparr> :: nat FunctionWrapper LockedQueue) [0] 1 [Some \<lparr>fn = \<lambda>_. 10, shared_state = 0\<rparr>]"
    by (simp add: LockedQueue_repr_def payload_def)
  then have h1: "LockedQueue_holds
      (\<lparr>store = [Some \<lparr>data = Some (Some \<lparr>fn = \<lambda>_. 10, shared_state = 0\<rparr>), nxt = Some 1\<rparr>, Some \<lparr>data = None, nxt = None\<rparr>], head = Some 0, tail = Some 1\<rparr> :: nat FunctionWrapper LockedQueue) [Some \<lparr>fn = \<lambda>_. 10, shared_state = 0\<rparr>]"
    unfolding LockedQueue_holds_def by blast
  have rr: "round_robin_after 0 3 = [1, 2, 0]"
    by code_simp
  have rr': "round_robin_after 0 (Suc (Suc (Suc 0))) = [1, 2, 0]"
    by code_simp
  have a: "RunPendingTask \<lparr>local_task_queue = Some 0, my_index = 0\<rparr>
       (\<lparr>done = False, global_task_queue = \<lparr>store = [Some \<lparr>data = None, nxt = None\<rparr>], head = Some 0, tail = Some 0\<rparr>,
        local_task_queues = [\<lparr>q = [Some \<lparr>fn = \<lambda>_. 20, shared_state = 1\<rparr>, Some \<lparr>fn = \<lambda>_. 10, shared_state = 0\<rparr>]\<rparr>, \<lparr>q = []\<rparr>, \<lparr>q = []\<rparr>],
        threads = [Thread 0, Thread 1, Thread 2], shared_states = [None, None], yields = 0\<rparr> :: nat ThreadPool)
     = Returns
       \<lparr>done = False, global_task_queue = \<lparr>store = [Some \<lparr>data = None, nxt = None\<rparr>], head = Some 0, tail = Some 0\<rparr>,
        local_task_queues = [\<lparr>q = [Some \<lparr>fn = \<lambda>_. 10, shared_state = 0\<rparr>]\<rparr>, \<lparr>q = []\<rparr>, \<lparr>q = []\<rparr>],
        threads = [Thread 0, Thread 1, Thread 2], shared_states = [None, Some 20], yields = 0\<rparr>"
    using RunPendingTask_local_then_global_then_steal [where me = "\<lparr>local_task_queue = Some 0, my_index = 0\<rparr>"
        and p = "(\<lparr>done = False, global_task_queue = \<lparr>store = [Some \<lparr>data = None, nxt = None\<rparr>], head = Some 0, tail = Some 0\<rparr>,
        local_task_queues = [\<lparr>q = [Some \<lparr>fn = \<lambda>_. 20, shared_state = 1\<rparr>, Some \<lparr>fn = \<lambda>_. 10, shared_state = 0\<rparr>]\<rparr>, \<lparr>q = []\<rparr>, \<lparr>q = []\<rparr>],
        threads = [Thread 0, Thread 1, Thread 2], shared_states = [None, None], yields = 0\<rparr> :: nat ThreadPool)"
        and gs = "[]" and k = 0 and t = "Some \<lparr>fn = \<lambda>_. 20, shared_state = 1\<rparr>" and rest = "[Some \<lparr>fn = \<lambda>_. 10, shared_state = 0\<rparr>]" and gs' = "[]" and j = 0
        and task = "\<lparr>fn = \<lambda>_. 10, shared_state = 0\<rparr>"] h0
    by (simp add: run_task_def FunctionWrapper_call_def packaged_task_call_def)
  have b: "\<exists>g. LockedQueue_holds g [] \<and>
          RunPendingTask \<lparr>local_task_queue = Some 0, my_index = 0\<rparr>
            (\<lparr>done = False, global_task_queue = \<lparr>store = [Some \<lparr>data = Some (Some \<lparr>fn = \<lambda>_. 10, shared_state = 0\<rparr>), nxt = Some 1\<rparr>, Some \<lparr>data = None, nxt = None\<rparr>], head = Some 0, tail = Some 1\<rparr>,
        local_task_queues = [\<lparr>q = []\<rparr>, \<lparr>q = []\<rparr>, \<lparr>q = []\<rparr>],
        threads = [Thread 0, Thread 1, Thread 2], shared_states = [None, None], yields = 0\<rparr> :: nat ThreadPool)
          = Returns ((\<lparr>done = False, global_task_queue = \<lparr>store = [Some \<lparr>data = None, nxt = None\<rparr>], head = Some 0, tail = Some 0\<rparr>,
        local_task_queues = [\<lparr>q = []\<rparr>, \<lparr>q = []\<rparr>, \<lparr>q = []\<rparr>],
        threads = [Thread 0, Thread 1, Thread 2], shared_states = [None, None], yields = 0\<rparr> :: nat ThreadPool)
              \<lparr>global_task_queue := g, shared_states := [Some 10, None]\<rparr>)"
    using RunPendingTask_local_then_global_then_steal [where me = "\<lparr>local_task_queue = Some 0, my_index = 0\<rparr>"
        and p = "(\<lparr>done = False, global_task_queue = \<lparr>store = [Some \<lparr>data = Some (Some \<lparr>fn = \<lambda>_. 10, shared_state = 0\<rparr>), nxt = Some 1\<rparr>, Some \<lparr>data = None, nxt = None\<rparr>], head = Some 0, tail = Some 1\<rparr>,
        local_task_queues = [\<lparr>q = []\<rparr>, \<lparr>q = []\<rparr>, \<lparr>q = []\<rparr>],
        threads = [Thread 0, Thread 1, Thread 2], shared_states = [None, None], yields = 0\<rparr> :: nat ThreadPool)"
        and gs = "[Some \<lparr>fn = \<lambda>_. 10, shared_state = 0\<rparr>]" and k = 0 and t = "Some \<lparr>fn = \<lambda>_. 10, shared_state = 0\<rparr>" and rest = "[]" and gs' = "[]" and j = 0
        and task = "\<lparr>fn = \<lambda>_. 10, shared_state = 0\<rparr>"] h1
    by (simp add: own_deque_def run_task_def FunctionWrapper_call_def packaged_task_call_def)
  have c: "RunPendingTask \<lparr>local_task_queue = Some 0, my_index = 0\<rparr>
       (\<lparr>done = False, global_task_queue = \<lparr>store = [Some \<lparr>data = None, nxt = None\<rparr>], head = Some 0, tail = Some 0\<rparr>,
        local_task_queues = [\<lparr>q = []\<rparr>, \<lparr>q = []\<rparr>, \<lparr>q = [Some \<lparr>fn = \<lambda>_. 20, shared_state = 1\<rparr>, Some \<lparr>fn = \<lambda>_. 10, shared_state = 0\<rparr>]\<rparr>],
        threads = [Thread 0, Thread 1, Thread 2], shared_states = [None, None], yields = 0\<rparr> :: nat ThreadPool)
     = Returns
       \<lparr>done = False, global_task_queue = \<lparr>store = [Some \<lparr>data = None, nxt = None\<rparr>], head = Some 0, tail = Some 0\<rparr>,
        local_task_queues = [\<lparr>q = []\<rparr>, \<lparr>q = []\<rparr>, \<lparr>q = [Some \<lparr>fn = \<lambda>_. 20, shared_state = 1\<rparr>]\<rparr>],
        threads = [Thread 0, Thread 1, Thread 2], shared_states = [Some 10, None], yields = 0\<rparr>"
    using RunPendingTask_local_then_global_then_steal [where me = "\<lparr>local_task_queue = Some 0, my_index = 0\<rparr>"
        and p = "(\<lparr>done = False, global_task_queue = \<lparr>store = [Some \<lparr>data = None, nxt = None\<rparr>], head = Some 0, tail = Some 0\<rparr>,
        local_task_queues = [\<lparr>q = []\<rparr>, \<lparr>q = []\<rparr>, \<lparr>q = [Some \<lparr>fn = \<lambda>_. 20, shared_state = 1\<rparr>, Some \<lparr>fn = \<lambda>_. 10, shared_state = 0\<rparr>]\<rparr>],
        threads = [Thread 0, Thread 1, Thread 2], shared_states = [None, None], yields = 0\<rparr> :: nat ThreadPool)"
        and gs = "[]" and k = 0 and t = "Some \<lparr>fn = \<lambda>_. 10, shared_state = 0\<rparr>" and rest = "[]" and gs' = "[]" and j = 2
        and task = "\<lparr>fn = \<lambda>_. 10, shared_state = 0\<rparr>"] h0
    by (simp add: rr' own_deque_def run_task_def FunctionWrapper_call_def packaged_task_call_def)
  have d: "RunPendingTask \<lparr>local_task_queue = Some 0, my_index = 0\<rparr>
       (\<lparr>done = False, global_task_queue = \<lparr>store = [Some \<lparr>data = None, nxt = None\<rparr>], head = Some 0, tail = Some 0\<rparr>,
        local_task_queues = [\<lparr>q = []\<rparr>, \<lparr>q = []\<rparr>, \<lparr>q = []\<rparr>],
        threads = [Thread 0, Thread 1, Thread 2], shared_states = [None, None], yields = 0\<rparr> :: nat ThreadPool)
     = Returns
       \<lparr>done = False, global_task_queue = \<lparr>store = [Some \<lparr>data = None, nxt = None\<rparr>], head = Some 0, tail = Some 0\<rparr>,
        local_task_queues = [\<lparr>q = []\<rparr>, \<lparr>q = []\<rparr>, \<lparr>q = []\<rparr>],
        threads = [Thread 0, Thread 1, Thread 2], shared_states = [None, None], yields = 1\<rparr>"
    using RunPendingTask_local_then_global_then_steal [where me = "\<lparr>local_task_queue = Some 0, my_index = 0\<rparr>"
        and p = "(\<lparr>done = False, global_task_queue = \<lparr>store = [Some \<lparr>data = None, nxt = None\<rparr>], head = Some 0, tail = Some 0\<rparr>,
        local_task_queues = [\<lparr>q = []\<rparr>, \<lparr>q = []\<rparr>, \<lparr>q = []\<rparr>],
        threads = [Thread 0, Thread 1, Thread 2], shared_states = [None, None], yields = 0\<rparr> :: nat ThreadPool)"
        and gs = "[]" and k = 0 and t = "Some \<lparr>fn = \<lambda>_. 10, shared_state = 0\<rparr>" and rest = "[]" and gs' = "[]" and j = 0
        and task = "\<lparr>fn = \<lambda>_. 10, shared_state = 0\<rparr>"] h0
    by (simp add: rr' own_deque_def)
  from a b rr c d show ?thesis by (intro conjI)
qed

text \<open>
  C6. \<^verbatim>\<open>Submit\<close> called with a lambda without parameters that returns an \<^verbatim>\<open>int\<close>, say
  \<^verbatim>\<open>[] { return 7; }\<close>: \<open>F\<close> is the closure type, a class whose call operator returns
  \<^verbatim>\<open>int\<close>. The alias \<^verbatim>\<open>result_t\<close> is then \<open>F\<close> itself, so that the instantiation declares
  the return type \<^verbatim>\<open>std::future<F>\<close>, a future for a callable and not for the callable's
  result \<^verbatim>\<open>int\<close>; and its first statement, which constructs a
  \<^verbatim>\<open>std::packaged_task<F()>\<close> from the callable, is not well formed, because the callable
  returns \<^verbatim>\<open>int\<close>. No call of \<^verbatim>\<open>Submit\<close> with this callable compiles.
\<close>

theorem Submit_of_a_lambda_is_ill_formed:
  "Submit_result_t (Type_class ''lambda'' (Some Type_int))
     = Some (Type_class ''lambda'' (Some Type_int))
   \<and> invoke_result_t (Type_class ''lambda'' (Some Type_int)) = Some Type_int
   \<and> \<not> Submit_well_formed (Type_class ''lambda'' (Some Type_int))"
  by (simp add: Submit_result_t_def Submit_well_formed_def packaged_task_constructible_def)

text \<open>
  C7. (1) The destructor of the pool first sets \<^verbatim>\<open>done_\<close> and joins nothing in that step;
  its later steps join the threads one by one, and a join of a thread whose \<^verbatim>\<open>Worker\<close> has
  not returned parks the destroying thread. (2) A worker sets its thread-locals, then
  evaluates the loop condition; each evaluation reads \<^verbatim>\<open>done_\<close>: the worker returns when it
  is set and otherwise runs the loop body \<^verbatim>\<open>RunPendingTask()\<close> once and stands before the
  condition again. (3) Neither \<^verbatim>\<open>RunPendingTask()\<close> nor any other step of a worker parks the
  thread, in any state. (4) While \<^verbatim>\<open>done_\<close> is clear and the destructor does not run, no
  worker returns, whatever the schedule. (5) Once \<^verbatim>\<open>done_\<close> is set it stays set, and in every
  schedule a worker has returned after two steps of its own, whatever the other threads do
  in between. (6) So, when the destructor has begun and every worker has had two steps, the
  destroying thread needs one step per thread and one more to join all threads and finish
  the destruction. (7) In a calm pool every schedule runs through: no step throws or ends
  the program; a worker that comes to the loop body there finds no task, yields once and
  stands before the condition again. (In (4) to (6) a schedule counts when it runs
  through.)
\<close>

theorem shutdown_flag_ends_every_worker:
  "(destructor s = Not_begun \<longrightarrow>
      step Destructor_runs s
        = Returns (s\<lparr>pool := (pool s)\<lparr>done := True\<rparr>, destructor := Joining 0\<rparr>))
   \<and> (destructor s = Joining i \<and> i < length (threads (pool s)) \<and>
       joinable (threads (pool s) ! i) \<longrightarrow>
      step Destructor_runs s =
        (if workers s ! i = Returned then
           Returns (s\<lparr>pool := (pool s)\<lparr>threads := (threads (pool s))[i := Joined]\<rparr>,
                     destructor := Joining (i + 1)\<rparr>)
         else Blocks))
   \<and> (k < length (local_task_queues p) \<longrightarrow>
      Worker_step (Entered k) p
        = Returns (At_condition \<lparr>local_task_queue = Some k, my_index = k\<rparr>, p))
   \<and> Worker_step (At_condition me) p = Returns (if done p then Returned else In_body me, p)
   \<and> (RunPendingTask me p = Returns p' \<longrightarrow>
      Worker_step (In_body me) p = Returns (At_condition me, p'))
   \<and> RunPendingTask me p \<noteq> Blocks
   \<and> Worker_step w p \<noteq> Blocks
   \<and> (\<not> done (pool s) \<and> Destructor_runs \<notin> set es \<and> run_schedule es s = Returns s' \<longrightarrow>
      \<not> done (pool s') \<and>
      (\<forall>j<length (workers s). workers s ! j \<noteq> Returned \<longrightarrow> workers s' ! j \<noteq> Returned))
   \<and> (done (pool s) \<and> run_schedule es s = Returns s' \<longrightarrow>
      done (pool s') \<and>
      (\<forall>j<length (workers s). 2 \<le> count_list es (Worker_runs j) \<longrightarrow>
         workers s' ! j = Returned))
   \<and> (destructor s = Not_begun \<and> length (workers s) = length (threads (pool s)) \<and>
       (\<forall>j<length (workers s). 2 \<le> count_list es (Worker_runs j)) \<and>
       run_schedule (Destructor_runs # es) s = Returns s' \<longrightarrow>
      run_schedule (replicate (Suc (length (threads (pool s)))) Destructor_runs) s' =
        Returns (s'\<lparr>pool := (pool s')\<lparr>threads := replicate (length (threads (pool s))) Joined\<rparr>,
                   destructor := Destroyed\<rparr>))
   \<and> (calm s \<longrightarrow> (\<exists>s''. run_schedule es s = Returns s''))
   \<and> (calm s \<and> j < length (workers s) \<and> workers s ! j = In_body me \<longrightarrow>
      step (Worker_runs j) s
        = Returns (s\<lparr>pool := (pool s)\<lparr>yields := Suc (yields (pool s))\<rparr>,
                    workers := (workers s)[j := At_condition me]\<rparr>))"
proof (intro conjI impI)
  assume "destructor s = Not_begun"
  then show "step Destructor_runs s
      = Returns (s\<lparr>pool := (pool s)\<lparr>done := True\<rparr>, destructor := Joining 0\<rparr>)"
    by (simp add: step_def destructor_step_eq)
next
  assume "destructor s = Joining i \<and> i < length (threads (pool s)) \<and>
      joinable (threads (pool s) ! i)"
  then show "step Destructor_runs s =
        (if workers s ! i = Returned then
           Returns (s\<lparr>pool := (pool s)\<lparr>threads := (threads (pool s))[i := Joined]\<rparr>,
                     destructor := Joining (i + 1)\<rparr>)
         else Blocks)"
    by (simp add: step_def destructor_step_eq)
next
  assume "k < length (local_task_queues p)"
  then show "Worker_step (Entered k) p
      = Returns (At_condition \<lparr>local_task_queue = Some k, my_index = k\<rparr>, p)"
    by (simp add: Worker_step_def)
next
  show "Worker_step (At_condition me) p = Returns (if done p then Returned else In_body me, p)"
    by (simp add: Worker_step_def)
next
  assume "RunPendingTask me p = Returns p'"
  then show "Worker_step (In_body me) p = Returns (At_condition me, p')"
    by (simp add: Worker_step_def)
next
  show "RunPendingTask me p \<noteq> Blocks" by (rule RunPendingTask_not_Blocks)
next
  show "Worker_step w p \<noteq> Blocks" by (rule Worker_step_not_Blocks)
next
  assume a: "\<not> done (pool s) \<and> Destructor_runs \<notin> set es \<and> run_schedule es s = Returns s'"
  then have "\<not> done (pool s)" "Destructor_runs \<notin> set es" "run_schedule es s = Returns s'"
    by simp_all
  from run_schedule_clear [OF this]
  show "\<not> done (pool s')"
    and "\<forall>j<length (workers s). workers s ! j \<noteq> Returned \<longrightarrow> workers s' ! j \<noteq> Returned"
    by simp_all
next
  assume a: "done (pool s) \<and> run_schedule es s = Returns s'"
  then have d: "done (pool s)" and r: "run_schedule es s = Returns s'" by simp_all
  note rd = run_schedule_done [OF d r]
  from rd show "done (pool s')" by simp
  show "\<forall>j<length (workers s). 2 \<le> count_list es (Worker_runs j) \<longrightarrow>
      workers s' ! j = Returned"
  proof (intro allI impI)
    fix j
    assume j: "j < length (workers s)" and two: "2 \<le> count_list es (Worker_runs j)"
    from rd j have "steps_to_return (workers s' ! j)
        \<le> steps_to_return (workers s ! j) - count_list es (Worker_runs j)"
      by blast
    with two steps_to_return_le [of "workers s ! j"]
    have "steps_to_return (workers s' ! j) = 0" by arith
    then show "workers s' ! j = Returned" by (simp add: steps_to_return_0)
  qed
next
  assume "destructor s = Not_begun \<and> length (workers s) = length (threads (pool s)) \<and>
       (\<forall>j<length (workers s). 2 \<le> count_list es (Worker_runs j)) \<and>
       run_schedule (Destructor_runs # es) s = Returns s'"
  then show "run_schedule (replicate (Suc (length (threads (pool s)))) Destructor_runs) s' =
        Returns (s'\<lparr>pool := (pool s')\<lparr>threads := replicate (length (threads (pool s))) Joined\<rparr>,
                   destructor := Destroyed\<rparr>)"
    by (intro destruction_completes [of s es]) simp_all
next
  assume "calm s"
  from calm_run [OF this, of es] show "\<exists>s''. run_schedule es s = Returns s''" by blast
next
  assume a: "calm s \<and> j < length (workers s) \<and> workers s ! j = In_body me"
  then have "RunPendingTask me (pool s) = Returns (yield (pool s))"
    by (intro calm_yields [of s j]) simp_all
  with a show "step (Worker_runs j) s
      = Returns (s\<lparr>pool := (pool s)\<lparr>yields := Suc (yields (pool s))\<rparr>,
                  workers := (workers s)[j := At_condition me]\<rparr>)"
    by (simp add: step_def Worker_step_def yield_def)
qed

text \<open>
  A pool of two workers with empty queues and nothing started yet. Worker 0 takes three
  steps while \<^verbatim>\<open>done_\<close> is clear: it enters, finds the condition true and yields once. Then
  the destructor sets \<^verbatim>\<open>done_\<close>; its first attempt to join thread 0 parks it, because
  worker 0 has not returned; both workers return at their next evaluation of the condition;
  and three more steps of the destructor join both threads and finish.
\<close>

theorem shutdown_flag_ends_every_worker_witness:
  "started (\<lparr>done = False,
       global_task_queue = \<lparr>store = [Some \<lparr>data = None, nxt = None\<rparr>], head = Some 0, tail = Some 0\<rparr>,
       local_task_queues = [\<lparr>q = []\<rparr>, \<lparr>q = []\<rparr>],
       threads = [Thread 0, Thread 1], shared_states = [], yields = 0\<rparr> :: nat ThreadPool)
     = \<lparr>pool = \<lparr>done = False,
          global_task_queue = \<lparr>store = [Some \<lparr>data = None, nxt = None\<rparr>], head = Some 0, tail = Some 0\<rparr>,
          local_task_queues = [\<lparr>q = []\<rparr>, \<lparr>q = []\<rparr>],
          threads = [Thread 0, Thread 1], shared_states = [], yields = 0\<rparr>,
        workers = [Entered 0, Entered 1], destructor = Not_begun\<rparr>
   \<and> calm (\<lparr>pool = \<lparr>done = False,
          global_task_queue = \<lparr>store = [Some \<lparr>data = None, nxt = None\<rparr>], head = Some 0, tail = Some 0\<rparr>,
          local_task_queues = [\<lparr>q = []\<rparr>, \<lparr>q = []\<rparr>],
          threads = [Thread 0, Thread 1], shared_states = [], yields = 0\<rparr>,
        workers = [Entered 0, Entered 1], destructor = Not_begun\<rparr> :: nat system)
   \<and> run_schedule [Worker_runs 0, Worker_runs 0, Worker_runs 0]
       (\<lparr>pool = \<lparr>done = False,
          global_task_queue = \<lparr>store = [Some \<lparr>data = None, nxt = None\<rparr>], head = Some 0, tail = Some 0\<rparr>,
          local_task_queues = [\<lparr>q = []\<rparr>, \<lparr>q = []\<rparr>],
          threads = [Thread 0, Thread 1], shared_states = [], yields = 0\<rparr>,
        workers = [Entered 0, Entered 1], destructor = Not_begun\<rparr> :: nat system)
     = Returns \<lparr>pool = \<lparr>done = False,
          global_task_queue = \<lparr>store = [Some \<lparr>data = None, nxt = None\<rparr>], head = Some 0, tail = Some 0\<rparr>,
          local_task_queues = [\<lparr>q = []\<rparr>, \<lparr>q = []\<rparr>],
          threads = [Thread 0, Thread 1], shared_states = [], yields = 1\<rparr>,
        workers = [At_condition \<lparr>local_task_queue = Some 0, my_index = 0\<rparr>, Entered 1],
        destructor = Not_begun\<rparr>
   \<and> run_schedule
       [Destructor_runs, Worker_runs 1, Destructor_runs, Worker_runs 0, Worker_runs 1, Worker_runs 0]
       (\<lparr>pool = \<lparr>done = False,
          global_task_queue = \<lparr>store = [Some \<lparr>data = None, nxt = None\<rparr>], head = Some 0, tail = Some 0\<rparr>,
          local_task_queues = [\<lparr>q = []\<rparr>, \<lparr>q = []\<rparr>],
          threads = [Thread 0, Thread 1], shared_states = [], yields = 1\<rparr>,
        workers = [At_condition \<lparr>local_task_queue = Some 0, my_index = 0\<rparr>, Entered 1],
        destructor = Not_begun\<rparr> :: nat system)
     = Returns \<lparr>pool = \<lparr>done = True,
          global_task_queue = \<lparr>store = [Some \<lparr>data = None, nxt = None\<rparr>], head = Some 0, tail = Some 0\<rparr>,
          local_task_queues = [\<lparr>q = []\<rparr>, \<lparr>q = []\<rparr>],
          threads = [Thread 0, Thread 1], shared_states = [], yields = 1\<rparr>,
        workers = [Returned, Returned], destructor = Joining 0\<rparr>
   \<and> run_schedule [Destructor_runs, Destructor_runs, Destructor_runs]
       (\<lparr>pool = \<lparr>done = True,
          global_task_queue = \<lparr>store = [Some \<lparr>data = None, nxt = None\<rparr>], head = Some 0, tail = Some 0\<rparr>,
          local_task_queues = [\<lparr>q = []\<rparr>, \<lparr>q = []\<rparr>],
          threads = [Thread 0, Thread 1], shared_states = [], yields = 1\<rparr>,
        workers = [Returned, Returned], destructor = Joining 0\<rparr> :: nat system)
     = Returns \<lparr>pool = \<lparr>done = True,
          global_task_queue = \<lparr>store = [Some \<lparr>data = None, nxt = None\<rparr>], head = Some 0, tail = Some 0\<rparr>,
          local_task_queues = [\<lparr>q = []\<rparr>, \<lparr>q = []\<rparr>],
          threads = [Joined, Joined], shared_states = [], yields = 1\<rparr>,
        workers = [Returned, Returned], destructor = Destroyed\<rparr>"
proof -
  let ?g = "\<lparr>store = [Some \<lparr>data = None, nxt = None\<rparr>], head = Some 0, tail = Some 0\<rparr>
    :: nat FunctionWrapper LockedQueue"
  let ?p0 = "\<lparr>done = False, global_task_queue = ?g, local_task_queues = [\<lparr>q = []\<rparr>, \<lparr>q = []\<rparr>],
       threads = [Thread 0, Thread 1], shared_states = [], yields = 0\<rparr> :: nat ThreadPool"
  let ?me = "\<lparr>local_task_queue = Some 0, my_index = 0\<rparr>"
  let ?s0 = "\<lparr>pool = ?p0, workers = [Entered 0, Entered 1], destructor = Not_begun\<rparr>"
  let ?s1 = "\<lparr>pool = ?p0\<lparr>yields := 1\<rparr>, workers = [At_condition ?me, Entered 1],
    destructor = Not_begun\<rparr>"
  have h: "LockedQueue_holds ?g []" by (rule LockedQueue_new_holds(2))
  then have "idle ?me ?p0" by (simp add: idle_def)
  from idle_yields(1) [OF this] have y: "RunPendingTask ?me ?p0 = Returns (?p0\<lparr>yields := 1\<rparr>)"
    by (simp add: yield_def)
  from h have c: "calm ?s0" by (simp add: calm_def attached_def)
  have st: "started ?p0 = ?s0" by (simp add: started_def)
  have r1: "run_schedule [Worker_runs 0, Worker_runs 0, Worker_runs 0] ?s0 = Returns ?s1"
    using y by (simp add: step_def Worker_step_def)
  have r2: "run_schedule
       [Destructor_runs, Worker_runs 1, Destructor_runs, Worker_runs 0, Worker_runs 1, Worker_runs 0]
       ?s1
     = Returns \<lparr>pool = ?p0\<lparr>done := True, yields := 1\<rparr>, workers = [Returned, Returned],
         destructor = Joining 0\<rparr>"
    by (simp add: step_def Worker_step_def destructor_step_def JoinThreads_dtor_step_def
        join_def ThreadPool_dtor_def joinable_def)
  from shutdown_flag_ends_every_worker [where s = ?s1
      and es = "[Worker_runs 1, Destructor_runs, Worker_runs 0, Worker_runs 1, Worker_runs 0]"
      and s' = "\<lparr>pool = ?p0\<lparr>done := True, yields := 1\<rparr>, workers = [Returned, Returned],
         destructor = Joining 0\<rparr>" and i = 0 and k = 0 and p = ?p0 and me = ?me
      and p' = "?p0\<lparr>yields := 1\<rparr>" and w = "Entered 0" and j = 0] r2
  have r3: "run_schedule [Destructor_runs, Destructor_runs, Destructor_runs]
       \<lparr>pool = ?p0\<lparr>done := True, yields := 1\<rparr>, workers = [Returned, Returned],
         destructor = Joining 0\<rparr>
     = Returns \<lparr>pool = ?p0\<lparr>done := True, threads := [Joined, Joined], yields := 1\<rparr>,
         workers = [Returned, Returned], destructor = Destroyed\<rparr>"
    by (simp add: less_Suc_eq numeral_2_eq_2)
  from st c r1 r2 r3 show ?thesis by simp
qed

text \<open>
  C8, as the code has it. The constructor takes no argument. Whenever it returns, the pool
  has exactly as many workers, and as many deques, as \<^verbatim>\<open>hardware_concurrency()\<close>
  reported, worker \<open>i\<close> at index \<open>i\<close>, the flag clear and the global queue empty; and it
  returns exactly when the first node of the global queue can be allocated and none of the
  library calls in its two loops fails. Nothing the caller passes can change the count.
\<close>

theorem ThreadPool_worker_count_is_hardware_concurrency:
  "(ThreadPool_new hc mem faults = Returns p \<longrightarrow>
        threads p = map Thread [0..<hc] \<and> length (threads p) = hc \<and>
        local_task_queues p = replicate hc WorkStealingQueue_new \<and> \<not> done p \<and>
        LockedQueue_Empty (global_task_queue p))
   \<and> ((\<exists>p' :: 'r ThreadPool. ThreadPool_new hc mem faults = Returns p') \<longleftrightarrow>
        0 < mem \<and>
        (\<forall>i<hc. faults (Make_queue i) = None \<and> faults (Append_queue i) = None \<and>
                faults (Start_thread i) = None \<and> faults (Append_thread i) = None))"
  by (auto simp: ThreadPool_new_Returns LockedQueue_Empty_def GetTail_def)

text \<open>
  A host that reports four hardware threads, with a hundred allocations available and no
  failing library call.
\<close>

theorem ThreadPool_worker_count_is_hardware_concurrency_witness:
  "ThreadPool_new 4 100 no_faults = Returns (\<lparr>done = False,
             global_task_queue =
               \<lparr>store = [Some \<lparr>data = None, nxt = None\<rparr>], head = Some 0, tail = Some 0\<rparr>,
             local_task_queues = replicate 4 WorkStealingQueue_new,
             threads = map Thread [0..<4], shared_states = [], yields = 0\<rparr> :: unit ThreadPool)
   \<and> length (map Thread [0..<4]) = 4
   \<and> (\<exists>p :: unit ThreadPool. ThreadPool_new 4 100 no_faults = Returns p)"
  using ThreadPool_worker_count_is_hardware_concurrency [of 4 100 no_faults
      "\<lparr>done = False,
             global_task_queue =
               \<lparr>store = [Some \<lparr>data = None, nxt = None\<rparr>], head = Some 0, tail = Some 0\<rparr>,
             local_task_queues = replicate 4 WorkStealingQueue_new,
             threads = map Thread [0..<4], shared_states = [], yields = 0\<rparr> :: unit ThreadPool"]
  by (simp add: ThreadPool_new_Returns no_faults_def)

text \<open>
  On a host that reports four, the pool has four workers; a pool accepting an override
  of two would have two.
\<close>

theorem ThreadPool_no_worker_count_override:
  "ThreadPool_new 4 100 no_faults = Returns (\<lparr>done = False,
             global_task_queue =
               \<lparr>store = [Some \<lparr>data = None, nxt = None\<rparr>], head = Some 0, tail = Some 0\<rparr>,
             local_task_queues =
               [WorkStealingQueue_new, WorkStealingQueue_new, WorkStealingQueue_new,
                WorkStealingQueue_new],
             threads = [Thread 0, Thread 1, Thread 2, Thread 3],
             shared_states = [], yields = 0\<rparr> :: unit ThreadPool)
   \<and> length [Thread 0, Thread 1, Thread 2, Thread 3] \<noteq> worker_count_with_override (Some 2) 4"
  by (simp add: ThreadPool_new_Returns no_faults_def worker_count_with_override_def upt_rec
      numeral_eq_Suc)

end
